theory Spec2Isabelle
  imports Complex_Main "HOL-Library.AList" "HOL-Library.Sublist" "HOL-Library.Log_Nat"
begin

section \<open>The signalling server (src/server.js)\<close>

subsection \<open>Data\<close>

text \<open>
  Socket identities and room codes are JavaScript strings. A room is the object
  \<^verbatim>\<open>{ participants: Set<socketId>, createdAt: Date }\<close>. A JavaScript \<^verbatim>\<open>Set\<close>
  keeps its members in insertion order and without duplicates: it is a list here,
  \<^verbatim>\<open>add\<close> appends a member that is not yet there, \<^verbatim>\<open>delete\<close> removes it, and
  \<^verbatim>\<open>size\<close> is the length.
\<close>

type_synonym sid = string

record room =
  participants :: "sid list"
  createdAt :: int

definition set_add :: "'a \<Rightarrow> 'a list \<Rightarrow> 'a list" where
  "set_add x xs = (if x \<in> set xs then xs else xs @ [x])"

definition set_delete :: "'a \<Rightarrow> 'a list \<Rightarrow> 'a list" where
  "set_delete x xs = removeAll x xs"

definition MAX_PARTICIPANTS :: nat where
  "MAX_PARTICIPANTS = 4"

text \<open>Events the server sends to a socket.\<close>

datatype relay = Offer | Answer | IceCandidate

datatype msg =
    RoomFull
  | RoomJoined "sid list"
  | ParticipantJoined sid
  | ParticipantLeft sid
  | Relayed relay sid string

text \<open>
  The state of the process:
  \<^item> \<open>rooms\<close> is the module-level \<^verbatim>\<open>Map\<close> from room id to room, in insertion order
    (\<^verbatim>\<open>set\<close> on a present key replaces the value in place, \<^verbatim>\<open>delete\<close> removes the
    entry, \<^verbatim>\<open>get\<close> is \<^const>\<open>map_of\<close>);
  \<^item> \<open>conns\<close> holds, for every live connection, the closure variable
    \<^verbatim>\<open>currentRoom\<close> of its handler (\<open>None\<close> is \<^verbatim>\<open>null\<close>); a socket that is not
    connected has no entry;
  \<^item> \<open>adapter\<close> is the room membership kept by socket.io itself
    (\<^verbatim>\<open>socket.join\<close>, \<^verbatim>\<open>socket.leave\<close>), which decides who receives a broadcast
    \<^verbatim>\<open>socket.to(room).emit\<close>;
  \<^item> \<open>timers\<close> are the pending \<^verbatim>\<open>setTimeout\<close> callbacks of \<^verbatim>\<open>leaveRoom\<close>, each
    with the time it is due and the room id it closes over. All of them have the same
    delay, so they fire in the order they were set.
\<close>

record server =
  rooms :: "(string \<times> room) list"
  conns :: "sid \<Rightarrow> string option option"
  adapter :: "string \<Rightarrow> sid list"
  timers :: "(int \<times> string) list"

definition init :: server where
  "init = \<lparr> rooms = [], conns = (\<lambda>_. None), adapter = (\<lambda>_. []), timers = [] \<rparr>"

text \<open>
  \<^verbatim>\<open>if (currentRoom)\<close> tests JavaScript truthiness: \<^verbatim>\<open>null\<close> and the empty string
  are both falsy. In the handlers below it is the test \<open>cur \<noteq> []\<close> under
  \<open>Some cur\<close>.
\<close>

subsection \<open>socket.io primitives\<close>

text \<open>
  \<^verbatim>\<open>socket.emit\<close> sends to the socket itself. \<^verbatim>\<open>socket.to(r).emit\<close> is a broadcast to
  the adapter room \<open>r\<close> with the except-room named by the sender's id: it sends once to
  every socket of the adapter room \<open>r\<close> that is not in the adapter room named by the
  sender's id (the sender's own room, which holds the sender as long as it has not left
  that room, and every socket that has joined a room of that name).
  \<^verbatim>\<open>io.to(r).emit\<close> sends once to every socket in the adapter room \<open>r\<close>.
\<close>

definition broadcast :: "server \<Rightarrow> sid \<Rightarrow> string \<Rightarrow> msg \<Rightarrow> (sid \<times> msg) list" where
  "broadcast st sender r m =
     map (\<lambda>t. (t, m)) (filter (\<lambda>t. t \<notin> set (adapter st sender)) (adapter st r))"

definition io_to :: "server \<Rightarrow> string \<Rightarrow> msg \<Rightarrow> (sid \<times> msg) list" where
  "io_to st r m = map (\<lambda>t. (t, m)) (adapter st r)"

definition socket_join :: "sid \<Rightarrow> string \<Rightarrow> server \<Rightarrow> server" where
  "socket_join s r st = st\<lparr>adapter := (adapter st)(r := set_add s (adapter st r))\<rparr>"

definition socket_leave :: "sid \<Rightarrow> string \<Rightarrow> server \<Rightarrow> server" where
  "socket_leave s r st = st\<lparr>adapter := (adapter st)(r := set_delete s (adapter st r))\<rparr>"

subsection \<open>Room ids\<close>

text \<open>
  \<^verbatim>\<open>customAlphabet(alphabet, n)\<close> of the nanoid package returns a generator of
  strings of \<open>n\<close> symbols, each taken from \<open>alphabet\<close>. The random source of one
  call is the parameter \<open>rnd\<close>.
\<close>

definition customAlphabet :: "string \<Rightarrow> nat \<Rightarrow> (nat \<Rightarrow> nat) \<Rightarrow> string" where
  "customAlphabet alphabet n rnd =
     map (\<lambda>i. alphabet ! (rnd i mod length alphabet)) [0..<n]"

definition generateRoomId :: "(nat \<Rightarrow> nat) \<Rightarrow> string" where
  "generateRoomId = customAlphabet ''0123456789'' 4"

definition is_digit :: "char \<Rightarrow> bool" where
  "is_digit c = (c \<in> set ''0123456789'')"

definition is_code :: "string \<Rightarrow> bool" where
  "is_code s = (length s = 4 \<and> list_all is_digit s)"

subsection \<open>REST handlers\<close>

text \<open>
  \<^verbatim>\<open>do { roomId = generateRoomId(); attempts++; } while (rooms.has(roomId) && attempts < 20)\<close>:
  \<open>draws k\<close> is the random source of the call made when \<open>attempts\<close> is \<open>k\<close>.
\<close>

function draw_loop :: "(string \<times> room) list \<Rightarrow> (nat \<Rightarrow> nat \<Rightarrow> nat) \<Rightarrow> nat \<Rightarrow> string" where
  "draw_loop rs draws attempts =
     (let roomId = generateRoomId (draws attempts);
          attempts' = attempts + 1
      in if map_of rs roomId \<noteq> None \<and> attempts' < 20
         then draw_loop rs draws attempts'
         else roomId)"
  by pat_completeness auto
termination
  by (relation "measure (\<lambda>(rs, draws, attempts). 20 - attempts)") auto

declare draw_loop.simps [simp del]

definition post_rooms :: "(nat \<Rightarrow> nat \<Rightarrow> nat) \<Rightarrow> int \<Rightarrow> server \<Rightarrow> string \<times> server" where
  "post_rooms draws now st =
     (let roomId = draw_loop (rooms st) draws 0
      in (roomId,
          st\<lparr>rooms := AList.update roomId \<lparr>participants = [], createdAt = now\<rparr> (rooms st)\<rparr>))"

datatype status = NotFound | Found string nat nat bool

definition get_room :: "server \<Rightarrow> string \<Rightarrow> status" where
  "get_room st rid =
     (case map_of (rooms st) rid of
        None \<Rightarrow> NotFound
      | Some room \<Rightarrow>
          Found rid (length (participants room)) MAX_PARTICIPANTS
            (length (participants room) \<ge> MAX_PARTICIPANTS))"

subsection \<open>Timers\<close>

text \<open>
  The \<^verbatim>\<open>setInterval\<close> callback: one pass over the entries of \<^verbatim>\<open>rooms\<close>, deleting
  as it goes (deleting the entry under the cursor does not disturb the iteration).
\<close>

definition stale :: "int \<Rightarrow> room \<Rightarrow> bool" where
  "stale now room = (length (participants room) = 0 \<and> now - createdAt room > 3600000)"

definition sweep_rooms :: "int \<Rightarrow> (string \<times> room) list \<Rightarrow> (string \<times> room) list" where
  "sweep_rooms now rs =
     fold (\<lambda>(rid, room) acc. if stale now room then AList.delete rid acc else acc) rs rs"

definition sweep :: "int \<Rightarrow> server \<Rightarrow> server" where
  "sweep now st = st\<lparr>rooms := sweep_rooms now (rooms st)\<rparr>"

text \<open>The \<^verbatim>\<open>setTimeout\<close> callback of \<^verbatim>\<open>leaveRoom\<close>, closed over \<open>roomId\<close>.\<close>

definition cleanup :: "string \<Rightarrow> server \<Rightarrow> server" where
  "cleanup roomId st =
     (case map_of (rooms st) roomId of
        None \<Rightarrow> st
      | Some r \<Rightarrow>
          if length (participants r) = 0
          then st\<lparr>rooms := AList.delete roomId (rooms st)\<rparr>
          else st)"

text \<open>The event loop runs the oldest pending timeout once its time has come.\<close>

definition timer_fire :: "int \<Rightarrow> server \<Rightarrow> server" where
  "timer_fire now st =
     (case timers st of
        [] \<Rightarrow> st
      | (due, roomId) # rest \<Rightarrow>
          if due \<le> now then cleanup roomId (st\<lparr>timers := rest\<rparr>) else st)"

subsection \<open>Socket handlers\<close>

definition leaveRoom :: "sid \<Rightarrow> string \<Rightarrow> int \<Rightarrow> server \<Rightarrow> server \<times> (sid \<times> msg) list" where
  "leaveRoom sock roomId now st =
     (case map_of (rooms st) roomId of
        None \<Rightarrow> (st, [])
      | Some room \<Rightarrow>
          let room' = room\<lparr>participants := set_delete sock (participants room)\<rparr>;
              st1 = st\<lparr>rooms := AList.update roomId room' (rooms st)\<rparr>;
              st2 = socket_leave sock roomId st1;
              out = broadcast st2 sock roomId (ParticipantLeft sock);
              st3 = (if length (participants room') = 0
                     then st2\<lparr>timers := timers st2 @ [(now + 300000, roomId)]\<rparr>
                     else st2)
          in (st3, out))"

text \<open>\<^verbatim>\<open>if (!rooms.has(roomId)) rooms.set(roomId, { participants: new Set(), createdAt: Date.now() })\<close>\<close>

definition ensure_room :: "string \<Rightarrow> int \<Rightarrow> server \<Rightarrow> server" where
  "ensure_room roomId now st =
     (if map_of (rooms st) roomId = None
      then st\<lparr>rooms := AList.update roomId \<lparr>participants = [], createdAt = now\<rparr> (rooms st)\<rparr>
      else st)"

text \<open>\<^verbatim>\<open>if (currentRoom) leaveRoom(socket, currentRoom)\<close>\<close>

definition leave_current :: "sid \<Rightarrow> string option \<Rightarrow> int \<Rightarrow> server \<Rightarrow> server \<times> (sid \<times> msg) list" where
  "leave_current sock currentRoom now st =
     (case currentRoom of
        None \<Rightarrow> (st, [])
      | Some cur \<Rightarrow> if cur \<noteq> [] then leaveRoom sock cur now st else (st, []))"

text \<open>
  \<^verbatim>\<open>room.participants.add(socket.id)\<close>. The variable \<^verbatim>\<open>room\<close> of the handler is a
  reference to the object stored under \<open>roomId\<close>; \<^verbatim>\<open>leaveRoom\<close> never removes an
  entry, so the object is the one \<^verbatim>\<open>rooms.get(roomId)\<close> returns at this point too.
\<close>

definition add_participant :: "sid \<Rightarrow> string \<Rightarrow> room \<Rightarrow> server \<Rightarrow> server" where
  "add_participant sock roomId room st =
     (let room' = (case map_of (rooms st) roomId of None \<Rightarrow> room | Some r \<Rightarrow> r)
      in st\<lparr>rooms := AList.update roomId
                        (room'\<lparr>participants := set_add sock (participants room')\<rparr>) (rooms st)\<rparr>)"

text \<open>The \<^verbatim>\<open>join-room\<close> handler of the connection \<open>sock\<close>.\<close>

definition join_room :: "sid \<Rightarrow> string \<Rightarrow> int \<Rightarrow> server \<Rightarrow> server \<times> (sid \<times> msg) list" where
  "join_room sock roomId now st =
     (case conns st sock of
        None \<Rightarrow> (st, [])
      | Some currentRoom \<Rightarrow>
          (let st1 = ensure_room roomId now st
           in (case map_of (rooms st1) roomId of
                 None \<Rightarrow> (st1, [])
               | Some room \<Rightarrow>
                   if length (participants room) \<ge> MAX_PARTICIPANTS
                   then (st1, [(sock, RoomFull)])
                   else
                     let left = leave_current sock currentRoom now st1;
                         st2 = fst left;
                         out1 = snd left;
                         st3 = st2\<lparr>conns := (conns st2)(sock := Some (Some roomId))\<rparr>;
                         st4 = add_participant sock roomId room st3;
                         st5 = socket_join sock roomId st4;
                         existingParticipants =
                           (case map_of (rooms st5) roomId of
                              None \<Rightarrow> []
                            | Some r \<Rightarrow> filter (\<lambda>i. i \<noteq> sock) (participants r))
                     in (st5, out1 @ [(sock, RoomJoined existingParticipants)]
                                @ broadcast st5 sock roomId (ParticipantJoined sock)))))"

definition relay_to :: "relay \<Rightarrow> sid \<Rightarrow> string \<Rightarrow> string \<Rightarrow> server \<Rightarrow> server \<times> (sid \<times> msg) list" where
  "relay_to kind sock target payload st =
     (case conns st sock of
        None \<Rightarrow> (st, [])
      | Some _ \<Rightarrow> (st, io_to st target (Relayed kind sock payload)))"

definition leave_room :: "sid \<Rightarrow> int \<Rightarrow> server \<Rightarrow> server \<times> (sid \<times> msg) list" where
  "leave_room sock now st =
     (case conns st sock of
        None \<Rightarrow> (st, [])
      | Some currentRoom \<Rightarrow>
          (case currentRoom of
             None \<Rightarrow> (st, [])
           | Some cur \<Rightarrow>
               if cur \<noteq> []
               then let (st1, out) = leaveRoom sock cur now st
                    in (st1\<lparr>conns := (conns st1)(sock := Some None)\<rparr>, out)
               else (st, [])))"

text \<open>
  socket.io takes a closing socket out of every adapter room before it emits
  \<^verbatim>\<open>disconnect\<close>; after the handler the connection and its closure are gone.
\<close>

definition leave_all :: "sid \<Rightarrow> server \<Rightarrow> server" where
  "leave_all sock st = st\<lparr>adapter := (\<lambda>r. set_delete sock (adapter st r))\<rparr>"

definition disconnect :: "sid \<Rightarrow> int \<Rightarrow> server \<Rightarrow> server \<times> (sid \<times> msg) list" where
  "disconnect sock now st =
     (case conns st sock of
        None \<Rightarrow> (st, [])
      | Some _ \<Rightarrow>
          let (st1, out) = leave_room sock now (leave_all sock st)
          in (st1\<lparr>conns := (conns st1)(sock := None)\<rparr>, out))"

text \<open>
  \<^verbatim>\<open>io.on('connection', ...)\<close>: socket.io gives every connection a fresh id and puts
  the socket into the adapter room named by that id; the handler starts with
  \<^verbatim>\<open>currentRoom = null\<close>. An id that is in use is never given out again.
\<close>

definition connect :: "sid \<Rightarrow> server \<Rightarrow> server" where
  "connect sock st =
     (case conns st sock of
        Some _ \<Rightarrow> st
      | None \<Rightarrow> (socket_join sock sock st)\<lparr>conns := (conns st)(sock := Some None)\<rparr>)"

subsection \<open>Runs\<close>

datatype event =
    Connect sid
  | JoinRoom sid string int
  | Signal relay sid string string
  | LeaveRoom sid int
  | Disconnect sid int
  | PostRooms "nat \<Rightarrow> nat \<Rightarrow> nat" int
  | Sweep int
  | TimerFire int

fun step :: "server \<Rightarrow> event \<Rightarrow> server \<times> (sid \<times> msg) list" where
  "step st (Connect s) = (connect s st, [])"
| "step st (JoinRoom s r now) = join_room s r now st"
| "step st (Signal k s t p) = relay_to k s t p st"
| "step st (LeaveRoom s now) = leave_room s now st"
| "step st (Disconnect s now) = disconnect s now st"
| "step st (PostRooms draws now) = (snd (post_rooms draws now st), [])"
| "step st (Sweep now) = (sweep now st, [])"
| "step st (TimerFire now) = (timer_fire now st, [])"

definition run :: "server \<Rightarrow> event list \<Rightarrow> server" where
  "run st evs = foldl (\<lambda>s e. fst (step s e)) st evs"

text \<open>Invariants of the runs, used below.\<close>

definition capped :: "server \<Rightarrow> bool" where
  "capped st = (\<forall>k r. map_of (rooms st) k = Some r \<longrightarrow> length (participants r) \<le> MAX_PARTICIPANTS)"

definition linked :: "server \<Rightarrow> bool" where
  "linked st =
     ((\<forall>k r s. map_of (rooms st) k = Some r \<and> k \<noteq> [] \<and> s \<in> set (participants r)
         \<longrightarrow> conns st s = Some (Some k) \<and> s \<in> set (adapter st k))
      \<and> (\<forall>k r. map_of (rooms st) k = Some r \<longrightarrow> distinct (participants r))
      \<and> (\<forall>k. distinct (adapter st k)))"

definition coded :: "server \<Rightarrow> bool" where
  "coded st = (\<forall>k. map_of (rooms st) k \<noteq> None \<longrightarrow> is_code k)"

fun join_code_ok :: "event \<Rightarrow> bool" where
  "join_code_ok (JoinRoom s r now) = is_code r"
| "join_code_ok _ = True"

fun is_timer :: "event \<Rightarrow> bool" where
  "is_timer (Sweep now) = True"
| "is_timer (TimerFire now) = True"
| "is_timer _ = False"

fun is_fire :: "event \<Rightarrow> bool" where
  "is_fire (TimerFire now) = True"
| "is_fire _ = False"

text \<open>
  The room ids asked for by the join-room requests of a run, and the ids of the sockets
  that connect in it. A run keeps them apart when no room id is the empty string and no
  room id is the id of a socket; this is so when the room ids are codes of four digits,
  since socket.io ids have twenty characters.
\<close>

fun room_id_of :: "event \<Rightarrow> string list" where
  "room_id_of (JoinRoom s r now) = [r]"
| "room_id_of _ = []"

fun socket_id_of :: "event \<Rightarrow> sid list" where
  "socket_id_of (Connect s) = [s]"
| "socket_id_of _ = []"

definition room_ids :: "event list \<Rightarrow> string list" where
  "room_ids evs = concat (map room_id_of evs)"

definition socket_ids :: "event list \<Rightarrow> sid list" where
  "socket_ids evs = concat (map socket_id_of evs)"

definition apart :: "event list \<Rightarrow> bool" where
  "apart evs = ([] \<notin> set (room_ids evs) \<and> set (room_ids evs) \<inter> set (socket_ids evs) = {})"

text \<open>How often the socket \<open>t\<close> is sent the event \<open>m\<close> in a list of emissions.\<close>

definition received :: "(sid \<times> msg) list \<Rightarrow> sid \<Rightarrow> msg \<Rightarrow> nat" where
  "received out t m = length (filter (\<lambda>x. x = (t, m)) out)"

fun is_room_joined :: "msg \<Rightarrow> bool" where
  "is_room_joined (RoomJoined l) = True"
| "is_room_joined _ = False"

definition room_joined_to :: "(sid \<times> msg) list \<Rightarrow> sid \<Rightarrow> msg list" where
  "room_joined_to out t = map snd (filter (\<lambda>x. fst x = t \<and> is_room_joined (snd x)) out)"

section \<open>The adaptive quality loop (src/public/js/room.js)\<close>

record tier =
  width :: nat
  height :: nat
  frameRate :: nat
  maxBitrate :: nat
  label :: string

definition QUALITY_TIERS :: "tier list" where
  "QUALITY_TIERS =
     [\<lparr>width = 1920, height = 1080, frameRate = 30, maxBitrate = 10000000, label = ''1080p+''\<rparr>,
      \<lparr>width = 1920, height = 1080, frameRate = 30, maxBitrate = 5000000, label = ''1080p''\<rparr>,
      \<lparr>width = 1280, height = 720, frameRate = 30, maxBitrate = 2500000, label = ''720p''\<rparr>,
      \<lparr>width = 960, height = 540, frameRate = 24, maxBitrate = 1200000, label = ''540p''\<rparr>,
      \<lparr>width = 640, height = 360, frameRate = 20, maxBitrate = 600000, label = ''360p''\<rparr>]"

text \<open>
  The part of a \<^verbatim>\<open>RoomManager\<close> the loop reads and writes: the tier index, the two
  hysteresis counters, \<^verbatim>\<open>this.peers.size\<close>, and a log of the tiers handed to
  \<^verbatim>\<open>applyCurrentTier\<close> (its effect on the camera and the senders is outside the
  program).
\<close>

record quality =
  currentTierIndex :: nat
  degradeCount :: nat
  improveCount :: nat
  peers_size :: nat
  applied :: "nat list"

datatype js_error = TypeError

definition applyCurrentTier :: "quality \<Rightarrow> quality" where
  "applyCurrentTier q = q\<lparr>applied := applied q @ [currentTierIndex q]\<rparr>"

definition adjustQuality :: "quality \<Rightarrow> quality" where
  "adjustQuality q = applyCurrentTier (q\<lparr>degradeCount := 0, improveCount := 0\<rparr>)"

subsection \<open>JavaScript numbers\<close>

text \<open>
  A JavaScript number is an IEEE 754 binary64 value. A positive finite one is
  \<open>m * 2 ^ e\<close> for two integers, with \<open>m\<close> below \<open>2 ^ 53\<close>; the pair \<open>(m, e)\<close>
  stands for it, and \<open>val\<close> is the real number it denotes. \<^verbatim>\<open>a * b\<close> is the exact
  product rounded to 53 significant bits, to the nearest value and to the even one of
  two that are equally near (frame rates and their products are far from the range
  where binary64 overflows or loses bits at the small end). The literals
  \<^verbatim>\<open>0.6\<close> and \<^verbatim>\<open>0.85\<close> are the binary64 values nearest to 6/10 and 85/100. An
  integer below \<open>2 ^ 53\<close> is a binary64 value as it is. Comparisons are exact, so a
  sample, a binary64 value itself, is compared as the real number it denotes.
\<close>

type_synonym double = "int \<times> int"

definition val :: "double \<Rightarrow> real" where
  "val d = (if snd d \<ge> 0 then of_int (fst d * 2 ^ nat (snd d))
            else of_int (fst d) / 2 ^ nat (- snd d))"

text \<open>\<open>m / 2 ^ k\<close> rounded to the nearest integer, a tie to the even one.\<close>

definition round_half_even :: "int \<Rightarrow> nat \<Rightarrow> int" where
  "round_half_even m k =
     (let q = m div 2 ^ k; r = m mod 2 ^ k
      in if 2 * r < 2 ^ k then q
         else if 2 * r > 2 ^ k then q + 1
         else if even q then q else q + 1)"

definition js_times :: "double \<Rightarrow> double \<Rightarrow> double" where
  "js_times a b =
     (let m = fst a * fst b; e = snd a + snd b; k = nat (bitlen m - 53)
      in (round_half_even m k, e + int k))"

definition lit_0_6 :: double where
  "lit_0_6 = (5404319552844595, - 53)"

definition lit_0_85 :: double where
  "lit_0_85 = (7656119366529843, - 53)"

definition of_frameRate :: "nat \<Rightarrow> double" where
  "of_frameRate n = (int n, 0)"

subsection \<open>The loop\<close>

text \<open>
  \<^verbatim>\<open>QUALITY_TIERS[this.currentTierIndex]\<close> is \<^verbatim>\<open>undefined\<close> for an index outside
  the table, and reading \<^verbatim>\<open>frameRate\<close> from it throws.
\<close>

definition adaptQuality :: "real \<Rightarrow> quality \<Rightarrow> js_error + quality" where
  "adaptQuality actualFps q =
     (if peers_size q = 0 then Inr q
      else if currentTierIndex q \<ge> length QUALITY_TIERS then Inl TypeError
      else
        let tier = QUALITY_TIERS ! currentTierIndex q;
            targetFps = of_frameRate (frameRate tier);
            q1 = (if actualFps > 0 \<and> actualFps < val (js_times targetFps lit_0_6)
                  then q\<lparr>degradeCount := degradeCount q + 1, improveCount := 0\<rparr>
                  else if actualFps \<ge> val (js_times targetFps lit_0_85)
                  then q\<lparr>improveCount := improveCount q + 1, degradeCount := 0\<rparr>
                  else q\<lparr>degradeCount := 0, improveCount := 0\<rparr>);
            q2 = (if degradeCount q1 \<ge> 3 \<and> currentTierIndex q1 < length QUALITY_TIERS - 1
                  then (applyCurrentTier (q1\<lparr>currentTierIndex := currentTierIndex q1 + 1\<rparr>))
                         \<lparr>degradeCount := 0, improveCount := 0\<rparr>
                  else q1);
            q3 = (if improveCount q2 \<ge> 8 \<and> currentTierIndex q2 > 0
                  then (applyCurrentTier (q2\<lparr>currentTierIndex := currentTierIndex q2 - 1\<rparr>))
                         \<lparr>degradeCount := 0, improveCount := 0\<rparr>
                  else q2)
        in Inr q3)"

text \<open>Consecutive samples: each call works on the state the previous one left.\<close>

fun adapt_all :: "real list \<Rightarrow> quality \<Rightarrow> js_error + quality" where
  "adapt_all [] q = Inr q"
| "adapt_all (f # fs) q = (case adaptQuality f q of Inl e \<Rightarrow> Inl e | Inr q' \<Rightarrow> adapt_all fs q')"

text \<open>
  The frame rate of the tier a manager is at, and the two thresholds
  \<^verbatim>\<open>targetFps * 0.6\<close> and \<^verbatim>\<open>targetFps * 0.85\<close> that \<^verbatim>\<open>adaptQuality\<close> computes
  for it.
\<close>

definition target_of :: "quality \<Rightarrow> real" where
  "target_of q = real (frameRate (QUALITY_TIERS ! currentTierIndex q))"

definition low_of :: "quality \<Rightarrow> real" where
  "low_of q = val (js_times (of_frameRate (frameRate (QUALITY_TIERS ! currentTierIndex q))) lit_0_6)"

definition high_of :: "quality \<Rightarrow> real" where
  "high_of q = val (js_times (of_frameRate (frameRate (QUALITY_TIERS ! currentTierIndex q))) lit_0_85)"

subsection \<open>Sampling\<close>

text \<open>
  One entry of \<^verbatim>\<open>pc.getStats()\<close>, with the fields that decide the fps signal;
  \<open>framesPerSecond\<close> is \<open>None\<close> where the report has no such field. The stats of a
  peer are \<open>None\<close> when \<^verbatim>\<open>getStats\<close> rejects (the \<^verbatim>\<open>catch\<close> skips that peer). The
  display string and the bitrate computed in the same loop do not reach
  \<^verbatim>\<open>adaptQuality\<close> and are left out.
\<close>

record report =
  rtype :: string
  kind :: string
  framesPerSecond :: "real option"

definition fps_of :: "report \<Rightarrow> real" where
  "fps_of r = (case framesPerSecond r of None \<Rightarrow> 0 | Some f \<Rightarrow> f)"

definition is_outbound_video :: "report \<Rightarrow> bool" where
  "is_outbound_video r = (rtype r = ''outbound-rtp'' \<and> kind r = ''video'')"

text \<open>\<^verbatim>\<open>minFps\<close> starts at \<^verbatim>\<open>Infinity\<close>, which is \<open>None\<close> here.\<close>

definition scan_report :: "report \<Rightarrow> real option \<Rightarrow> real option" where
  "scan_report r minFps =
     (if is_outbound_video r
      then let fps = fps_of r
           in if fps > 0
              then (case minFps of None \<Rightarrow> Some fps | Some m \<Rightarrow> Some (min m fps))
              else minFps
      else minFps)"

definition scan_peer :: "report list option \<Rightarrow> real option \<Rightarrow> real option" where
  "scan_peer stats minFps =
     (case stats of None \<Rightarrow> minFps | Some reports \<Rightarrow> fold scan_report reports minFps)"

definition minFps_of :: "report list option list \<Rightarrow> real option" where
  "minFps_of peers = fold scan_peer peers None"

definition collectStats :: "report list option list \<Rightarrow> quality \<Rightarrow> js_error + quality" where
  "collectStats peers q =
     (if peers_size q = 0 then Inr q
      else case minFps_of peers of
             None \<Rightarrow> Inr q
           | Some minFps \<Rightarrow> adaptQuality minFps q)"

text \<open>
  The frames-per-second values observed on the outbound video reports of all peers,
  as the claim about the signal speaks of them, and the positive ones among them.
\<close>

definition observed :: "report list option list \<Rightarrow> real list" where
  "observed peers =
     concat (map (\<lambda>stats. case stats of
                             None \<Rightarrow> []
                           | Some reports \<Rightarrow> map fps_of (filter is_outbound_video reports)) peers)"

definition positive :: "real list \<Rightarrow> real list" where
  "positive fs = filter (\<lambda>f. f > 0) fs"

text \<open>\<^verbatim>\<open>Math.min(minFps, fps)\<close> on the running minimum.\<close>

definition lower :: "real option \<Rightarrow> real \<Rightarrow> real option" where
  "lower acc f = (case acc of None \<Rightarrow> Some f | Some m \<Rightarrow> Some (min m f))"

section \<open>Room code extraction (src/public/js/main.js)\<close>

text \<open>
  \<^verbatim>\<open>String.prototype.trim\<close> removes white space and line terminators at both ends;
  these are the ones among the 8-bit characters.
\<close>

definition is_space :: "char \<Rightarrow> bool" where
  "is_space c = ((of_char c :: nat) \<in> {9, 10, 11, 12, 13, 32, 160})"

definition trim :: "string \<Rightarrow> string" where
  "trim s = rev (dropWhile is_space (rev (dropWhile is_space s)))"

text \<open>
  \<^verbatim>\<open>/(\d{4})(?!\d)/\<close> at the start of \<open>s\<close>: four digits, and no digit after them.
\<close>

definition match_here :: "string \<Rightarrow> bool" where
  "match_here s =
     (length s \<ge> 4 \<and> list_all is_digit (take 4 s)
      \<and> (case drop 4 s of [] \<Rightarrow> True | c # _ \<Rightarrow> \<not> is_digit c))"

text \<open>
  \<^verbatim>\<open>trimmed.match(/(\d{4})(?!\d)/g)\<close>: the leftmost match from the current position,
  then on from the end of that match.
\<close>

function match_all :: "string \<Rightarrow> string list" where
  "match_all s =
     (if s = [] then []
      else if match_here s then take 4 s # match_all (drop 4 s)
      else match_all (tl s))"
  by pat_completeness auto
termination
  by (relation "measure length") (auto simp: match_here_def)

declare match_all.simps [simp del]

definition extractRoomId :: "string \<Rightarrow> string option" where
  "extractRoomId input =
     (let trimmed = trim input
      in if trimmed = [] then None
         else case match_all trimmed of
                [] \<Rightarrow> None
              | m # ms \<Rightarrow> Some (last (m # ms)))"

text \<open>
  The specification's wording: a run of four digits at position \<open>i\<close> that is not
  followed by a further digit, and the last such run of a string.
\<close>

definition window_at :: "string \<Rightarrow> nat \<Rightarrow> bool" where
  "window_at s i =
     (i + 4 \<le> length s \<and> list_all is_digit (take 4 (drop i s))
      \<and> (i + 4 < length s \<longrightarrow> \<not> is_digit (s ! (i + 4))))"

definition last_window :: "string \<Rightarrow> string option" where
  "last_window s =
     (case filter (window_at s) (rev [0..<length s]) of
        [] \<Rightarrow> None
      | i # _ \<Rightarrow> Some (take 4 (drop i s)))"

text \<open>The same, by recursion from the end of the string.\<close>

fun lastw :: "string \<Rightarrow> string option" where
  "lastw [] = None"
| "lastw (c # s) =
     (case lastw s of
        Some w \<Rightarrow> Some w
      | None \<Rightarrow> if match_here (c # s) then Some (take 4 (c # s)) else None)"

text \<open>The last element of the match array, if there is one.\<close>

definition last_match :: "string \<Rightarrow> string option" where
  "last_match s = (case match_all s of [] \<Rightarrow> None | m # ms \<Rightarrow> Some (last (m # ms)))"

section \<open>Example runs\<close>

text \<open>
  Five sockets connect; four of them join room 1234, one after the other, and then the
  fifth asks for it.
\<close>

definition four_joins :: "event list" where
  "four_joins =
     [Connect ''a'', Connect ''b'', Connect ''c'', Connect ''d'', Connect ''e'',
      JoinRoom ''a'' ''1234'' 10, JoinRoom ''b'' ''1234'' 20, JoinRoom ''c'' ''1234'' 30,
      JoinRoom ''d'' ''1234'' 40]"

definition five_joins :: "event list" where
  "five_joins = four_joins @ [JoinRoom ''e'' ''1234'' 50]"

text \<open>
  A random source whose every draw is the code 1234, and a run in which that room is
  created at time 0 and joined by one socket.
\<close>

definition draws_1234 :: "nat \<Rightarrow> nat \<Rightarrow> nat" where
  "draws_1234 k i = Suc i"

definition busy_room :: "event list" where
  "busy_room = [PostRooms draws_1234 0, Connect ''a'', JoinRoom ''a'' ''1234'' 1000]"

text \<open>One socket connects and joins room 1234, which the join creates.\<close>

definition occupied :: "event list" where
  "occupied = [Connect ''a'', JoinRoom ''a'' ''1234'' 0]"

text \<open>
  The only participant of room 1234 leaves at time 2000, comes back at time 100000 and
  leaves again at time 300000.
\<close>

definition rejoined :: "event list" where
  "rejoined = busy_room @ [LeaveRoom ''a'' 2000, JoinRoom ''a'' ''1234'' 100000,
                           LeaveRoom ''a'' 300000]"

text \<open>
  Two sockets connect, and the second joins the room whose id is the id of the first.
\<close>

definition named_after :: "event list" where
  "named_after = [Connect ''a'', Connect ''b'', JoinRoom ''b'' ''a'' 0]"

text \<open>Two sockets connect; the first joins room 1234, then the second does.\<close>

definition pair_before :: "event list" where
  "pair_before = [Connect ''a'', Connect ''b'', JoinRoom ''a'' ''1234'' 0]"

definition pair_joined :: "event list" where
  "pair_joined = pair_before @ [JoinRoom ''b'' ''1234'' 1]"

text \<open>
  An outbound video report with the given frame rate, and two peers, one sending no
  frames and one sending 30 per second.
\<close>

definition video_report :: "real \<Rightarrow> report" where
  "video_report f = \<lparr>rtype = ''outbound-rtp'', kind = ''video'', framesPerSecond = Some f\<rparr>"

definition two_peers :: "report list option list" where
  "two_peers = [Some [video_report 0], Some [video_report 30]]"

text \<open>A manager with one peer at tier \<open>i\<close>, both counters at 0.\<close>

definition with_one_peer :: "nat \<Rightarrow> quality" where
  "with_one_peer i =
     \<lparr>currentTierIndex = i, degradeCount = 0, improveCount = 0, peers_size = 1, applied = []\<rparr>"

text \<open>
  The JavaScript number \<^verbatim>\<open>14.399999999999999\<close>, which is \<^verbatim>\<open>24 * 0.6\<close>: the
  greatest binary64 value below 14.4.
\<close>

definition below_14_4 :: real where
  "below_14_4 = 8106479329266892 / 2 ^ 49"

section \<open>Proofs about the server\<close>

subsection \<open>Sets as lists\<close>

lemma length_set_add: "length (set_add x xs) \<le> Suc (length xs)"
  by (simp add: set_add_def)

lemma length_set_delete: "length (set_delete x xs) \<le> length xs"
  by (simp add: set_delete_def removeAll_filter_not_eq)

lemma set_set_add [simp]: "set (set_add x xs) = insert x (set xs)"
  by (auto simp: set_add_def)

lemma set_set_delete [simp]: "set (set_delete x xs) = set xs - {x}"
  by (simp add: set_delete_def)

lemma distinct_set_add: "distinct xs \<Longrightarrow> distinct (set_add x xs)"
  by (simp add: set_add_def)

lemma distinct_set_delete: "distinct xs \<Longrightarrow> distinct (set_delete x xs)"
  by (simp add: set_delete_def distinct_removeAll)

subsection \<open>What leaveRoom does to each part of the state\<close>

lemma leaveRoom_rooms:
  "map_of (rooms (fst (leaveRoom s c now st))) =
     (case map_of (rooms st) c of
        None \<Rightarrow> map_of (rooms st)
      | Some r \<Rightarrow> (map_of (rooms st))(c \<mapsto> r\<lparr>participants := set_delete s (participants r)\<rparr>))"
  by (simp add: leaveRoom_def Let_def socket_leave_def AList.update_conv' split: option.splits)

lemma leaveRoom_conns [simp]: "conns (fst (leaveRoom s c now st)) = conns st"
  by (simp add: leaveRoom_def Let_def socket_leave_def split: option.splits)

lemma leaveRoom_adapter:
  "adapter (fst (leaveRoom s c now st)) =
     (case map_of (rooms st) c of
        None \<Rightarrow> adapter st
      | Some r \<Rightarrow> (adapter st)(c := set_delete s (adapter st c)))"
  by (simp add: leaveRoom_def Let_def socket_leave_def split: option.splits)

lemma leaveRoom_timers:
  "timers (fst (leaveRoom s c now st)) =
     (case map_of (rooms st) c of
        None \<Rightarrow> timers st
      | Some r \<Rightarrow> if set_delete s (participants r) = []
                  then timers st @ [(now + 300000, c)] else timers st)"
  by (simp add: leaveRoom_def Let_def socket_leave_def split: option.splits)

lemma leaveRoom_out:
  "snd (leaveRoom s c now st) =
     (case map_of (rooms st) c of
        None \<Rightarrow> []
      | Some r \<Rightarrow> broadcast (socket_leave s c st) s c (ParticipantLeft s))"
  by (simp add: leaveRoom_def Let_def socket_leave_def broadcast_def split: option.splits)

lemma leaveRoom_keys [simp]:
  "map fst (rooms (fst (leaveRoom s c now st))) = map fst (rooms st)"
  by (auto simp: leaveRoom_def Let_def socket_leave_def AList.update_keys map_of_eq_None_iff
           split: option.splits)

lemma leave_current_conns [simp]: "conns (fst (leave_current s cur now st)) = conns st"
  by (simp add: leave_current_def split: option.splits)

lemma leave_current_keys [simp]:
  "map fst (rooms (fst (leave_current s cur now st))) = map fst (rooms st)"
  by (simp add: leave_current_def split: option.splits)

lemma leave_current_present:
  "map_of (rooms st) k \<noteq> None \<Longrightarrow> map_of (rooms (fst (leave_current s cur now st))) k \<noteq> None"
  by (auto simp: leave_current_def leaveRoom_rooms split: option.splits)

subsection \<open>The bound of four\<close>

lemma capped_leaveRoom: "capped st \<Longrightarrow> capped (fst (leaveRoom s c now st))"
  unfolding capped_def leaveRoom_rooms
  by (auto split: option.splits if_splits intro: order_trans [OF length_set_delete])

lemma leaveRoom_length:
  "map_of (rooms (fst (leaveRoom s c now st))) k = Some r' \<Longrightarrow>
   \<exists>r. map_of (rooms st) k = Some r \<and> length (participants r') \<le> length (participants r)"
  unfolding leaveRoom_rooms
  by (auto split: option.splits if_splits simp: length_set_delete)

lemma leave_current_length:
  "map_of (rooms (fst (leave_current s cur now st))) k = Some r' \<Longrightarrow>
   \<exists>r. map_of (rooms st) k = Some r \<and> length (participants r') \<le> length (participants r)"
  by (auto simp: leave_current_def split: option.splits if_splits dest: leaveRoom_length)

lemma capped_ensure_room: "capped st \<Longrightarrow> capped (ensure_room k now st)"
  by (simp add: capped_def ensure_room_def AList.update_conv')

lemma ensure_room_present: "map_of (rooms (ensure_room k now st)) k \<noteq> None"
  by (simp add: ensure_room_def AList.update_conv')

lemma capped_join_room: "capped st \<Longrightarrow> capped (fst (join_room s r now st))"
proof (cases "conns st s")
  case None
  then show "capped st \<Longrightarrow> ?thesis" by (simp add: join_room_def)
next
  case (Some cur)
  define st1 where "st1 = ensure_room r now st"
  assume "capped st"
  then have c1: "capped st1" by (simp add: st1_def capped_ensure_room)
  obtain room where room: "map_of (rooms st1) r = Some room"
    using ensure_room_present[of r now st] by (auto simp: st1_def)
  show ?thesis
  proof (cases "length (participants room) \<ge> MAX_PARTICIPANTS")
    case True
    then show ?thesis using Some room c1 by (simp add: join_room_def flip: st1_def)
  next
    case False
    define st2 where "st2 = fst (leave_current s cur now st1)"
    have le: "\<exists>r0. map_of (rooms st1) k = Some r0 \<and> length (participants r') \<le> length (participants r0)"
      if "map_of (rooms st2) k = Some r'" for k r'
      using that unfolding st2_def by (rule leave_current_length)
    obtain room' where room': "map_of (rooms st2) r = Some room'"
      using leave_current_present[of st1 r s cur now] room by (auto simp: st2_def)
    from le[OF room'] room False have lt: "length (participants room') < MAX_PARTICIPANTS" by auto
    have "capped st2" unfolding capped_def using le c1 unfolding capped_def by (meson order_trans)
    then have "capped (st2\<lparr>rooms := AList.update r (room'\<lparr>participants := set_add s (participants room')\<rparr>) (rooms st2)\<rparr>)"
      using lt length_set_add[of s "participants room'"]
      by (auto simp: capped_def AList.update_conv')
    then show ?thesis using Some room False room'
      by (simp add: join_room_def Let_def split_def socket_join_def add_participant_def capped_def
               flip: st1_def st2_def)
  qed
qed

lemma capped_conns [simp]: "capped (st\<lparr>conns := c\<rparr>) = capped st"
  by (simp add: capped_def)

lemma capped_leave_room: "capped st \<Longrightarrow> capped (fst (leave_room s now st))"
  by (simp add: leave_room_def split_def Let_def capped_leaveRoom split: option.splits)

lemma capped_leave_all [simp]: "capped (leave_all s st) = capped st"
  by (simp add: capped_def leave_all_def)

lemma capped_disconnect: "capped st \<Longrightarrow> capped (fst (disconnect s now st))"
  by (simp add: disconnect_def split_def Let_def capped_leave_room split: option.splits)

lemma capped_post_rooms: "capped st \<Longrightarrow> capped (snd (post_rooms draws now st))"
  by (simp add: post_rooms_def Let_def capped_def AList.update_conv')

lemma map_of_sweep_rooms_aux:
  "map_of (fold (\<lambda>(rid, room) acc. if stale now room then AList.delete rid acc else acc) xs acc) k =
     (if \<exists>r. (k, r) \<in> set xs \<and> stale now r then None else map_of acc k)"
  by (induction xs arbitrary: acc) (auto simp: AList.delete_conv')

lemma map_of_sweep_rooms:
  "distinct (map fst rs) \<Longrightarrow>
   map_of (sweep_rooms now rs) k =
     (case map_of rs k of None \<Rightarrow> None | Some r \<Rightarrow> if stale now r then None else Some r)"
  unfolding sweep_rooms_def map_of_sweep_rooms_aux
  by (auto split: option.splits simp: map_of_eq_None_iff dest: eq_key_imp_eq_value map_of_SomeD)

lemma sweep_rooms_sub:
  "map_of (sweep_rooms now rs) k = Some r \<Longrightarrow> map_of rs k = Some r"
  unfolding sweep_rooms_def map_of_sweep_rooms_aux by (auto split: if_splits)

lemma capped_sweep: "capped st \<Longrightarrow> capped (sweep now st)"
  by (auto simp: capped_def sweep_def dest: sweep_rooms_sub)

lemma capped_timer_fire: "capped st \<Longrightarrow> capped (timer_fire now st)"
  by (auto simp: capped_def timer_fire_def cleanup_def AList.delete_conv'
           split: list.splits option.splits if_splits)

lemma capped_connect: "capped st \<Longrightarrow> capped (connect s st)"
  by (simp add: capped_def connect_def socket_join_def split: option.splits)

lemma capped_step: "capped st \<Longrightarrow> capped (fst (step st e))"
  by (cases e)
     (simp_all add: capped_connect capped_join_room capped_leave_room capped_disconnect
        capped_post_rooms capped_sweep capped_timer_fire relay_to_def split: option.splits)

lemma run_snoc: "run st (evs @ [e]) = fst (step (run st evs) e)"
  by (simp add: run_def)

lemma capped_run: "capped (run init evs)"
proof (induction evs rule: rev_induct)
  case Nil
  show ?case by (simp add: run_def init_def capped_def)
next
  case (snoc e evs)
  then show ?case by (simp add: run_snoc capped_step)
qed

text \<open>
  C1. In every state the server reaches from its start, through any sequence of
  connections, join-room, leave-room, disconnect, signalling, room creation, sweep and
  deferred cleanup events, every room of the registry has at most four participants.
\<close>

theorem participants_bounded:
  "map_of (rooms (run init evs)) code = Some r \<Longrightarrow> length (participants r) \<le> 4"
  using capped_run[of evs] by (simp add: capped_def MAX_PARTICIPANTS_def)

theorem participants_bounded_witness:
  "map_of (rooms (run init five_joins)) ''1234''
     = Some \<lparr>participants = [''a'', ''b'', ''c'', ''d''], createdAt = 10\<rparr>
   \<and> length (participants \<lparr>participants = [''a'', ''b'', ''c'', ''d''], createdAt = 10\<rparr>) \<le> 4"
proof -
  have run: "map_of (rooms (run init five_joins)) ''1234''
     = Some \<lparr>participants = [''a'', ''b'', ''c'', ''d''], createdAt = 10\<rparr>"
    by code_simp
  from participants_bounded[OF run] run show ?thesis by simp
qed

text \<open>
  C2. When the room asked for has four participants, join-room sends the one event
  room-full to the requester and leaves the whole state as it was: the registry, the
  requester's current room, the socket.io rooms and the pending timers; nobody else is
  sent anything.
\<close>

theorem join_full_room:
  assumes "conns st sock = Some cur"
    and "map_of (rooms st) roomId = Some room"
    and "length (participants room) = 4"
  shows "join_room sock roomId now st = (st, [(sock, RoomFull)])"
  using assms by (simp add: join_room_def ensure_room_def MAX_PARTICIPANTS_def)

theorem join_full_room_witness:
  "conns (run init four_joins) ''e'' = Some None
   \<and> map_of (rooms (run init four_joins)) ''1234''
       = Some \<lparr>participants = [''a'', ''b'', ''c'', ''d''], createdAt = 10\<rparr>
   \<and> join_room ''e'' ''1234'' 50 (run init four_joins)
       = (run init four_joins, [(''e'', RoomFull)])"
proof -
  have c: "conns (run init four_joins) ''e'' = Some None"
    by code_simp
  have r: "map_of (rooms (run init four_joins)) ''1234''
       = Some \<lparr>participants = [''a'', ''b'', ''c'', ''d''], createdAt = 10\<rparr>"
    by code_simp
  from join_full_room[OF c r, of 50] c r show ?thesis by simp
qed

subsection \<open>Keys of the registry\<close>

lemma distinct_sweep_aux:
  "distinct (map fst acc) \<Longrightarrow>
   distinct (map fst (fold (\<lambda>(rid, room) acc. if stale now room then AList.delete rid acc else acc) xs acc))"
  by (induction xs arbitrary: acc) (auto simp: AList.distinct_delete)

lemma keys_leave_room [simp]: "map fst (rooms (fst (leave_room s now st))) = map fst (rooms st)"
  by (simp add: leave_room_def split_def Let_def split: option.splits)

lemma keys_disconnect [simp]: "map fst (rooms (fst (disconnect s now st))) = map fst (rooms st)"
  by (simp add: disconnect_def split_def Let_def leave_all_def split: option.splits)

lemma keys_connect [simp]: "rooms (connect s st) = rooms st"
  by (simp add: connect_def socket_join_def split: option.splits)

lemma keys_relay [simp]: "fst (relay_to k s t p st) = st"
  by (simp add: relay_to_def split: option.splits)

lemma distinct_join_room:
  "distinct (map fst (rooms st)) \<Longrightarrow> distinct (map fst (rooms (fst (join_room s r now st))))"
  by (auto simp: join_room_def Let_def split_def socket_join_def add_participant_def ensure_room_def
        AList.update_keys split: option.splits if_splits)

lemma distinct_step:
  "distinct (map fst (rooms st)) \<Longrightarrow> distinct (map fst (rooms (fst (step st e))))"
  by (cases e)
     (auto simp: distinct_join_room post_rooms_def Let_def AList.distinct_update sweep_def
        sweep_rooms_def distinct_sweep_aux timer_fire_def cleanup_def AList.distinct_delete
        split: list.splits option.splits)

lemma distinct_run: "distinct (map fst (rooms (run init evs)))"
proof (induction evs rule: rev_induct)
  case Nil
  show ?case by (simp add: run_def init_def)
next
  case (snoc e evs)
  then show ?case by (simp add: run_snoc distinct_step)
qed

text \<open>
  C7 (as the code has it). A run of the periodic sweep deletes exactly the rooms that
  are empty at that moment and were created more than 3600000 ms before it; every other
  entry, and the rest of the state, is untouched. The time at which a room became empty
  is recorded nowhere and plays no part.
\<close>

theorem sweep_by_creation_time:
  "map_of (rooms (sweep now (run init evs))) k =
     (case map_of (rooms (run init evs)) k of
        None \<Rightarrow> None
      | Some r \<Rightarrow> if participants r = [] \<and> now - createdAt r > 3600000 then None else Some r)
   \<and> conns (sweep now (run init evs)) = conns (run init evs)
   \<and> adapter (sweep now (run init evs)) = adapter (run init evs)
   \<and> timers (sweep now (run init evs)) = timers (run init evs)"
  by (simp add: sweep_def map_of_sweep_rooms[OF distinct_run] stale_def split: option.splits)

text \<open>
  C7 as stated fails: room 1234 is created at time 0 and occupied from time 1000 until
  its only participant leaves at time 5399000; the sweep that runs one second later, at
  5400000, deletes it, although it has been empty for 1000 ms only.
\<close>

theorem sweep_counterexample:
  "get_room (run init busy_room) ''1234'' = Found ''1234'' 1 4 False
   \<and> get_room (run init (busy_room @ [LeaveRoom ''a'' 5399000])) ''1234''
       = Found ''1234'' 0 4 False
   \<and> get_room (run init (busy_room @ [LeaveRoom ''a'' 5399000, Sweep 5400000])) ''1234''
       = NotFound"
  by code_simp

subsection \<open>Generated codes\<close>

lemma is_code_generateRoomId: "is_code (generateRoomId rnd)"
  by (simp add: is_code_def generateRoomId_def customAlphabet_def list_all_iff is_digit_def
        del: list.set)

lemma draw_loop_is_draw: "\<exists>k. draw_loop rs draws a = generateRoomId (draws k)"
proof (induction rs draws a rule: draw_loop.induct)
  case (1 rs draws attempts)
  show ?case
  proof (cases "map_of rs (generateRoomId (draws attempts)) \<noteq> None \<and> attempts + 1 < 20")
    case True
    with "1.IH"[OF refl refl True] show ?thesis
      by (subst draw_loop.simps) (simp add: Let_def)
  next
    case False
    then show ?thesis
      by (subst draw_loop.simps) (auto simp: Let_def)
  qed
qed

lemma is_code_draw_loop: "is_code (draw_loop rs draws a)"
  using draw_loop_is_draw[of rs draws a] by (auto simp: is_code_generateRoomId)

lemma draw_loop_all_taken:
  "a < 20 \<Longrightarrow> (\<And>k. a \<le> k \<Longrightarrow> k < 20 \<Longrightarrow> map_of rs (generateRoomId (draws k)) \<noteq> None) \<Longrightarrow>
   draw_loop rs draws a = generateRoomId (draws 19)"
proof (induction rs draws a rule: draw_loop.induct)
  case (1 rs draws attempts)
  show ?case
  proof (cases "attempts + 1 < 20")
    case True
    have "draw_loop rs draws (attempts + 1) = generateRoomId (draws 19)"
      using "1.prems" True by (intro "1.IH"[OF refl refl]) auto
    then show ?thesis using True "1.prems"
      by (subst draw_loop.simps) (simp add: Let_def)
  next
    case False
    with "1.prems" have "attempts = 19" by simp
    then show ?thesis by (subst draw_loop.simps) (simp add: Let_def)
  qed
qed

lemma leave_current_has:
  "(map_of (rooms (fst (leave_current s cur now st))) k \<noteq> None) = (map_of (rooms st) k \<noteq> None)"
  by (auto simp: leave_current_def leaveRoom_rooms split: option.splits if_splits)

lemma join_room_has:
  "map_of (rooms (fst (join_room s r now st))) k \<noteq> None \<Longrightarrow> k = r \<or> map_of (rooms st) k \<noteq> None"
  using leave_current_has[of s _ now "ensure_room r now st" k]
  by (auto simp: join_room_def Let_def split_def socket_join_def add_participant_def
        AList.update_conv' ensure_room_def split: option.splits if_splits)

lemma leave_room_has:
  "(map_of (rooms (fst (leave_room s now st))) k \<noteq> None) = (map_of (rooms st) k \<noteq> None)"
  by (auto simp: leave_room_def split_def Let_def leaveRoom_rooms split: option.splits if_splits)

lemma disconnect_has:
  "(map_of (rooms (fst (disconnect s now st))) k \<noteq> None) = (map_of (rooms st) k \<noteq> None)"
  using leave_room_has[of s now "leave_all s st" k]
  by (auto simp: disconnect_def split_def Let_def leave_all_def split: option.splits)

lemma timer_fire_has:
  "map_of (rooms (timer_fire now st)) k \<noteq> None \<Longrightarrow> map_of (rooms st) k \<noteq> None"
  by (auto simp: timer_fire_def cleanup_def AList.delete_conv'
        split: list.splits option.splits if_splits)

lemma coded_step: "join_code_ok e \<Longrightarrow> coded st \<Longrightarrow> coded (fst (step st e))"
proof (cases e)
  case (JoinRoom s r now)
  assume "join_code_ok e" "coded st"
  then show ?thesis using JoinRoom unfolding coded_def
    by (auto dest!: join_room_has simp del: not_None_eq)
next
  case (LeaveRoom s now)
  assume "coded st"
  then show ?thesis using LeaveRoom unfolding coded_def by (simp add: leave_room_has del: not_None_eq)
next
  case (Disconnect s now)
  assume "coded st"
  then show ?thesis using Disconnect unfolding coded_def by (simp add: disconnect_has del: not_None_eq)
next
  case (PostRooms draws now)
  assume "coded st"
  then show ?thesis using PostRooms unfolding coded_def
    by (auto simp: post_rooms_def Let_def AList.update_conv' is_code_draw_loop split: if_splits)
next
  case (Sweep now)
  assume "coded st"
  then show ?thesis using Sweep unfolding coded_def
    by (auto simp: sweep_def dest!: sweep_rooms_sub)
next
  case (TimerFire now)
  assume "coded st"
  then show ?thesis using TimerFire unfolding coded_def
    by (auto dest!: timer_fire_has simp del: not_None_eq)
qed (simp_all add: coded_def)

lemma coded_run: "\<forall>e \<in> set evs. join_code_ok e \<Longrightarrow> coded (run init evs)"
proof (induction evs rule: rev_induct)
  case Nil
  show ?case by (simp add: run_def init_def coded_def)
next
  case (snoc e evs)
  then show ?case by (simp add: run_snoc coded_step)
qed

text \<open>
  C8 (as the code has it). The code returned by room creation is always a string of
  four decimal digits. The join-room handler stores a room under the room id of the
  request as it is, with no check of its form; so the keys of the registry are all
  four-digit codes in every run whose join-room requests all carry four-digit codes.
\<close>

theorem registry_keys:
  "is_code (fst (post_rooms draws now st))
   \<and> ((\<forall>e \<in> set evs. join_code_ok e) \<longrightarrow>
        (\<forall>k. map_of (rooms (run init evs)) k \<noteq> None \<longrightarrow> is_code k))"
  using coded_run[of evs]
  by (simp add: post_rooms_def Let_def is_code_draw_loop coded_def)

theorem registry_keys_witness:
  "is_code (fst (post_rooms draws_1234 0 init))
   \<and> list_all join_code_ok five_joins
   \<and> map_of (rooms (run init five_joins)) ''1234'' \<noteq> None
   \<and> is_code ''1234''"
proof -
  have h: "\<forall>e \<in> set five_joins. join_code_ok e"
    by (simp add: five_joins_def four_joins_def is_code_def is_digit_def)
  have r: "map_of (rooms (run init five_joins)) ''1234'' \<noteq> None"
    by code_simp
  from registry_keys[of draws_1234 0 init five_joins] h r show ?thesis
    by (simp add: list_all_iff)
qed

text \<open>
  C8 as stated fails: a join-room request for the room id \<open>lobby\<close> creates a room
  under that key.
\<close>

theorem registry_keys_counterexample:
  "map_of (rooms (run init [Connect ''a'', JoinRoom ''a'' ''lobby'' 0])) ''lobby''
     = Some \<lparr>participants = [''a''], createdAt = 0\<rparr>
   \<and> \<not> is_code ''lobby''"
  by code_simp

subsection \<open>Room creation\<close>

lemma gen_1234: "generateRoomId (draws_1234 k) = ''1234''"
  by code_simp

text \<open>
  C10. Room creation stores a fresh empty room under the code it returns, whatever was
  stored there, and touches neither the connections' current rooms nor the socket.io
  rooms. When all 20 draws are codes of existing rooms, the code returned is the 20th
  draw and the room that existed under it is replaced. Such a state exists: after one
  socket has joined room 1234, a creation whose draws are all 1234 returns 1234 and
  leaves that room with no participants, while the socket's current room is still 1234.
\<close>

theorem create_overwrites:
  "map_of (rooms (snd (post_rooms draws now st))) (fst (post_rooms draws now st))
     = Some \<lparr>participants = [], createdAt = now\<rparr>
   \<and> conns (snd (post_rooms draws now st)) = conns st
   \<and> adapter (snd (post_rooms draws now st)) = adapter st
   \<and> ((\<forall>k<20. map_of (rooms st) (generateRoomId (draws k)) \<noteq> None) \<longrightarrow>
         fst (post_rooms draws now st) = generateRoomId (draws 19)
         \<and> map_of (rooms st) (fst (post_rooms draws now st)) \<noteq> None)
   \<and> list_all (\<lambda>k. map_of (rooms (run init occupied)) (generateRoomId (draws_1234 k)) \<noteq> None)
        [0..<20]
   \<and> map_of (rooms (run init occupied)) ''1234''
        = Some \<lparr>participants = [''a''], createdAt = 0\<rparr>
   \<and> fst (post_rooms draws_1234 9 (run init occupied)) = ''1234''
   \<and> map_of (rooms (snd (post_rooms draws_1234 9 (run init occupied)))) ''1234''
        = Some \<lparr>participants = [], createdAt = 9\<rparr>
   \<and> conns (snd (post_rooms draws_1234 9 (run init occupied))) ''a'' = Some (Some ''1234'')"
proof (intro conjI impI)
  show "map_of (rooms (snd (post_rooms draws now st))) (fst (post_rooms draws now st))
     = Some \<lparr>participants = [], createdAt = now\<rparr>"
    by (simp add: post_rooms_def Let_def AList.update_conv')
  show "conns (snd (post_rooms draws now st)) = conns st"
    by (simp add: post_rooms_def Let_def)
  show "adapter (snd (post_rooms draws now st)) = adapter st"
    by (simp add: post_rooms_def Let_def)
  assume all: "\<forall>k<20. map_of (rooms st) (generateRoomId (draws k)) \<noteq> None"
  then show last: "fst (post_rooms draws now st) = generateRoomId (draws 19)"
    by (simp add: post_rooms_def Let_def draw_loop_all_taken del: not_None_eq)
  show "map_of (rooms st) (fst (post_rooms draws now st)) \<noteq> None"
    unfolding last using all by simp
next
  have occ: "map_of (rooms (run init occupied)) ''1234''
        = Some \<lparr>participants = [''a''], createdAt = 0\<rparr>"
    by code_simp
  then show "map_of (rooms (run init occupied)) ''1234''
        = Some \<lparr>participants = [''a''], createdAt = 0\<rparr>" .
  from occ show "list_all (\<lambda>k. map_of (rooms (run init occupied)) (generateRoomId (draws_1234 k)) \<noteq> None)
        [0..<20]"
    by (simp add: list_all_iff gen_1234)
  have "\<And>k. k < 20 \<Longrightarrow> map_of (rooms (run init occupied)) (generateRoomId (draws_1234 k)) \<noteq> None"
    using occ by (simp add: gen_1234)
  then have d: "draw_loop (rooms (run init occupied)) draws_1234 0 = ''1234''"
    using draw_loop_all_taken[of 0 "rooms (run init occupied)" draws_1234] by (simp add: gen_1234)
  then show "fst (post_rooms draws_1234 9 (run init occupied)) = ''1234''"
    by (simp add: post_rooms_def Let_def)
  from d show "map_of (rooms (snd (post_rooms draws_1234 9 (run init occupied)))) ''1234''
        = Some \<lparr>participants = [], createdAt = 9\<rparr>"
    by (simp add: post_rooms_def Let_def AList.update_conv')
  show "conns (snd (post_rooms draws_1234 9 (run init occupied))) ''a'' = Some (Some ''1234'')"
    unfolding post_rooms_def Let_def snd_conv by (simp, code_simp)
qed

theorem create_overwrites_witness:
  "list_all (\<lambda>k. map_of (rooms (run init occupied)) (generateRoomId (draws_1234 k)) \<noteq> None)
     [0..<20]
   \<and> fst (post_rooms draws_1234 9 (run init occupied)) = generateRoomId (draws_1234 19)
   \<and> map_of (rooms (run init occupied)) (fst (post_rooms draws_1234 9 (run init occupied)))
       = Some \<lparr>participants = [''a''], createdAt = 0\<rparr>"
proof -
  have occ: "map_of (rooms (run init occupied)) ''1234''
        = Some \<lparr>participants = [''a''], createdAt = 0\<rparr>"
    by code_simp
  then have h: "\<forall>k<20. map_of (rooms (run init occupied)) (generateRoomId (draws_1234 k)) \<noteq> None"
    by (simp add: gen_1234)
  from create_overwrites[of draws_1234 9 "run init occupied"] h occ show ?thesis
    by (simp add: list_all_iff gen_1234)
qed


subsection \<open>Members, bindings and socket.io rooms\<close>

lemma linkedD:
  "linked st \<Longrightarrow> map_of (rooms st) k = Some r \<Longrightarrow> k \<noteq> [] \<Longrightarrow> s \<in> set (participants r) \<Longrightarrow>
   conns st s = Some (Some k) \<and> s \<in> set (adapter st k)"
  unfolding linked_def by blast

lemma linked_distinct_adapter: "linked st \<Longrightarrow> distinct (adapter st k)"
  unfolding linked_def by blast

lemma linked_distinct_participants:
  "linked st \<Longrightarrow> map_of (rooms st) k = Some r \<Longrightarrow> distinct (participants r)"
  unfolding linked_def by blast

lemma linked_leaveRoom: "linked st \<Longrightarrow> linked (fst (leaveRoom s c now st))"
  unfolding linked_def leaveRoom_rooms leaveRoom_adapter leaveRoom_conns
  by (cases "map_of (rooms st) c") (auto simp: distinct_set_delete split: if_splits)

lemma linked_leave_current: "linked st \<Longrightarrow> linked (fst (leave_current s cur now st))"
  by (simp add: leave_current_def linked_leaveRoom split: option.splits)

lemma leave_current_absent:
  assumes "linked st" and "conns st s = Some cur"
    and "map_of (rooms (fst (leave_current s cur now st))) k = Some r" and "k \<noteq> []"
  shows "s \<notin> set (participants r)"
proof (cases "\<exists>c. cur = Some c \<and> c \<noteq> []")
  case False
  then have "fst (leave_current s cur now st) = st"
    by (cases cur) (auto simp: leave_current_def)
  with assms linkedD[OF assms(1), of k r s] False show ?thesis by auto
next
  case True
  then obtain c where c: "cur = Some c" "c \<noteq> []" by blast
  show ?thesis
  proof (cases "k = c")
    case True
    with assms(3) c show ?thesis
      by (auto simp: leave_current_def leaveRoom_rooms split: option.splits)
  next
    case False
    with assms(3) c have "map_of (rooms st) k = Some r"
      by (auto simp: leave_current_def leaveRoom_rooms split: option.splits)
    with linkedD[OF assms(1) this assms(4), of s] assms(2) c False show ?thesis by auto
  qed
qed

lemma linked_join_room:
  assumes "linked st"
  shows "linked (fst (join_room s r now st))"
proof (cases "conns st s")
  case None
  with assms show ?thesis by (simp add: join_room_def)
next
  case (Some cur)
  define st1 where "st1 = ensure_room r now st"
  have l1: "linked st1" using assms
    by (auto simp: st1_def ensure_room_def linked_def AList.update_conv')
  have c1: "conns st1 s = Some cur" using Some by (simp add: st1_def ensure_room_def)
  obtain room where room: "map_of (rooms st1) r = Some room"
    using ensure_room_present[of r now st] by (auto simp: st1_def)
  show ?thesis
  proof (cases "length (participants room) \<ge> MAX_PARTICIPANTS")
    case True
    then show ?thesis using Some room l1 by (simp add: join_room_def flip: st1_def)
  next
    case False
    define st2 where "st2 = fst (leave_current s cur now st1)"
    have l2: "linked st2" unfolding st2_def using l1 by (rule linked_leave_current)
    have absent: "s \<notin> set (participants r')" if "map_of (rooms st2) k = Some r'" "k \<noteq> []" for k r'
      using leave_current_absent[OF l1 c1] that unfolding st2_def by blast
    obtain room' where room': "map_of (rooms st2) r = Some room'"
      using leave_current_present[of st1 r s cur now] room by (auto simp: st2_def)
    define st5 where "st5 = st2\<lparr>conns := (conns st2)(s := Some (Some r)),
        rooms := AList.update r (room'\<lparr>participants := set_add s (participants room')\<rparr>) (rooms st2),
        adapter := (adapter st2)(r := set_add s (adapter st2 r))\<rparr>"
    have eq: "fst (join_room s r now st) = st5"
      using Some room False room'
      by (simp add: join_room_def Let_def split_def socket_join_def add_participant_def st5_def
               flip: st1_def st2_def)
    have A: "conns st5 x = Some (Some k) \<and> x \<in> set (adapter st5 k)"
      if a: "map_of (rooms st5) k = Some q \<and> k \<noteq> [] \<and> x \<in> set (participants q)" for k q x
      proof (cases "k = r")
        case True
        with a have "x = s \<or> x \<in> set (participants room')"
          by (auto simp: st5_def AList.update_conv')
        then show ?thesis
        proof
          assume "x = s" then show ?thesis using True by (simp add: st5_def)
        next
          assume x: "x \<in> set (participants room')"
          with a True absent[OF room'] have "x \<noteq> s" by auto
          with linkedD[OF l2 room' _ x] a True show ?thesis by (auto simp: st5_def)
        qed
      next
        case False
        with a have q: "map_of (rooms st2) k = Some q" by (auto simp: st5_def AList.update_conv')
        with absent[OF q] a have "x \<noteq> s" by auto
        with linkedD[OF l2 q] a False show ?thesis by (auto simp: st5_def)
      qed
    have B: "distinct (participants q)" if "map_of (rooms st5) k = Some q" for k q
      using that linked_distinct_participants[OF l2] room'
      by (auto simp: st5_def AList.update_conv' distinct_set_add split: if_splits)
    have C: "distinct (adapter st5 k)" for k
      using linked_distinct_adapter[OF l2] by (simp add: st5_def distinct_set_add)
    have "linked st5"
      unfolding linked_def using A B C by blast
    then show ?thesis by (simp add: eq)
  qed
qed


lemma leave_room_as_current:
  "conns st s = Some cur \<Longrightarrow>
   leave_room s now st =
     ((fst (leave_current s cur now st))
        \<lparr>conns := (conns st)(s := (if cur \<noteq> None \<and> cur \<noteq> Some [] then Some None else Some cur))\<rparr>,
      snd (leave_current s cur now st))"
  by (cases cur) (auto simp: leave_room_def leave_current_def split_def Let_def fun_upd_idem)

lemma linked_leave_room:
  assumes "linked st"
  shows "linked (fst (leave_room s now st))"
proof (cases "conns st s")
  case None
  with assms show ?thesis by (simp add: leave_room_def)
next
  case (Some cur)
  define st2 where "st2 = fst (leave_current s cur now st)"
  have l2: "linked st2" unfolding st2_def using assms by (rule linked_leave_current)
  have absent: "s \<notin> set (participants r')" if "map_of (rooms st2) k = Some r'" "k \<noteq> []" for k r'
    using leave_current_absent[OF assms Some] that unfolding st2_def by blast
  have "linked (st2\<lparr>conns := (conns st2)(s := v)\<rparr>)" for v
    using l2 absent unfolding linked_def by auto
  then show ?thesis
    unfolding leave_room_as_current[OF Some] fst_conv st2_def by simp
qed

lemma leave_room_absent:
  assumes "linked st" and "map_of (rooms (fst (leave_room s now st))) k = Some r" and "k \<noteq> []"
  shows "s \<notin> set (participants r)"
proof (cases "conns st s")
  case None
  with assms linkedD[OF assms(1), of k r s] show ?thesis by (auto simp: leave_room_def)
next
  case (Some cur)
  with assms(2) have "map_of (rooms (fst (leave_current s cur now st))) k = Some r"
    by (simp add: leave_room_as_current)
  from leave_current_absent[OF assms(1) Some this assms(3)] show ?thesis .
qed

lemma set_delete_twice: "set_delete s (set_delete s xs) = set_delete s xs"
  by (simp add: set_delete_def)

lemma broadcast_leave_all:
  "broadcast (socket_leave s c (leave_all s st)) s c m = broadcast (socket_leave s c st) s c m"
proof -
  have "filter (\<lambda>t. t \<notin> set (set_delete s X)) (set_delete s ys)
          = filter (\<lambda>t. t \<notin> set X) (set_delete s ys)" for X ys :: "sid list"
    by (rule filter_cong) auto
  then show ?thesis
    by (simp add: broadcast_def socket_leave_def leave_all_def set_delete_twice)
qed

lemma leaveRoom_leave_all:
  "leaveRoom s c now (leave_all s st) =
     (leave_all s (fst (leaveRoom s c now st)), snd (leaveRoom s c now st))"
proof (cases "map_of (rooms st) c")
  case None
  then show ?thesis by (simp add: leaveRoom_def leave_all_def)
next
  case (Some r)
  have rs: "rooms (leave_all s st) = rooms st" by (simp add: leave_all_def)
  have out: "snd (leaveRoom s c now (leave_all s st)) = snd (leaveRoom s c now st)"
    using Some rs by (simp add: leaveRoom_out broadcast_leave_all)
  have st: "fst (leaveRoom s c now (leave_all s st)) = leave_all s (fst (leaveRoom s c now st))"
    using Some
    by (auto simp: leaveRoom_def leave_all_def Let_def socket_leave_def set_delete_twice fun_eq_iff)
  from out st show ?thesis by (simp add: prod_eq_iff)
qed

lemma leave_room_leave_all:
  "leave_room s now (leave_all s st) =
     (leave_all s (fst (leave_room s now st)), snd (leave_room s now st))"
  by (auto simp: leave_room_def leaveRoom_leave_all split_def Let_def split: option.splits)
     (simp_all add: leave_all_def)

lemma leave_all_conns [simp]: "conns (leave_all s st) = conns st"
  by (simp add: leave_all_def)

lemma disconnect_alt:
  "conns st s = Some cur \<Longrightarrow>
   disconnect s now st =
     ((leave_all s (fst (leave_room s now st)))
        \<lparr>conns := (conns (fst (leave_room s now st)))(s := None)\<rparr>,
      snd (leave_room s now st))"
  by (simp add: disconnect_def leave_room_leave_all split_def Let_def)

lemma linked_disconnect:
  assumes "linked st"
  shows "linked (fst (disconnect s now st))"
proof (cases "conns st s")
  case None
  with assms show ?thesis by (simp add: disconnect_def)
next
  case (Some cur)
  define st1 where "st1 = fst (leave_room s now st)"
  have l1: "linked st1" unfolding st1_def using assms by (rule linked_leave_room)
  have absent: "s \<notin> set (participants r')" if "map_of (rooms st1) k = Some r'" "k \<noteq> []" for k r'
    using leave_room_absent[OF assms] that unfolding st1_def by blast
  have "linked ((leave_all s st1)\<lparr>conns := (conns st1)(s := None)\<rparr>)"
    using l1 absent unfolding linked_def
    by (auto simp: leave_all_def distinct_set_delete)
  then show ?thesis
    unfolding disconnect_alt[OF Some] fst_conv st1_def by simp
qed

lemma linked_connect: "linked st \<Longrightarrow> linked (connect s st)"
  unfolding linked_def
  by (auto simp: connect_def socket_join_def distinct_set_add split: option.splits)

lemma linked_post_rooms: "linked st \<Longrightarrow> linked (snd (post_rooms draws now st))"
  unfolding linked_def by (auto simp: post_rooms_def Let_def AList.update_conv')

lemma linked_sweep: "linked st \<Longrightarrow> linked (sweep now st)"
  unfolding linked_def by (auto simp: sweep_def dest!: sweep_rooms_sub)

lemma linked_timer_fire: "linked st \<Longrightarrow> linked (timer_fire now st)"
  unfolding linked_def
  by (auto simp: timer_fire_def cleanup_def AList.delete_conv'
        split: list.splits option.splits if_splits)

lemma linked_step: "linked st \<Longrightarrow> linked (fst (step st e))"
  by (cases e)
     (simp_all add: linked_connect linked_join_room linked_leave_room linked_disconnect
        linked_post_rooms linked_sweep linked_timer_fire)

lemma linked_run: "linked (run init evs)"
proof (induction evs rule: rev_induct)
  case Nil
  show ?case by (simp add: run_def init_def linked_def)
next
  case (snoc e evs)
  then show ?case by (simp add: run_snoc linked_step)
qed


subsection \<open>Deferred cleanup\<close>

lemma join_room_keeps:
  "map_of (rooms st) k \<noteq> None \<Longrightarrow> map_of (rooms (fst (join_room s r now st))) k \<noteq> None"
  using leave_current_has[of s _ now "ensure_room r now st" k]
  by (auto simp: join_room_def Let_def split_def socket_join_def add_participant_def
        AList.update_conv' ensure_room_def split: option.splits if_splits)

lemma step_keeps:
  "\<not> is_timer e \<Longrightarrow> map_of (rooms st) k \<noteq> None \<Longrightarrow> map_of (rooms (fst (step st e))) k \<noteq> None"
  by (cases e)
     (simp_all add: join_room_keeps leave_room_has disconnect_has post_rooms_def Let_def
        AList.update_conv' del: not_None_eq)

text \<open>The three callers of \<^verbatim>\<open>leaveRoom\<close>, when the socket that leaves is alone in its room.\<close>

lemma last_leave_room:
  assumes "conns st s = Some (Some r)" and "r \<noteq> []" and "map_of (rooms st) r = Some room"
    and "participants room = [s]"
  shows "timers (fst (leave_room s now st)) = timers st @ [(now + 300000, r)]"
    and "get_room (fst (leave_room s now st)) r = Found r 0 4 False"
  using assms
  by (simp_all add: leave_room_def split_def Let_def get_room_def leaveRoom_rooms
        leaveRoom_timers set_delete_def MAX_PARTICIPANTS_def)

lemma last_disconnect:
  assumes "conns st s = Some (Some r)" and "r \<noteq> []" and "map_of (rooms st) r = Some room"
    and "participants room = [s]"
  shows "timers (fst (disconnect s now st)) = timers st @ [(now + 300000, r)]"
    and "get_room (fst (disconnect s now st)) r = Found r 0 4 False"
proof -
  have "timers (fst (disconnect s now st)) = timers (fst (leave_room s now st))"
    and "rooms (fst (disconnect s now st)) = rooms (fst (leave_room s now st))"
    by (simp_all add: disconnect_alt[OF assms(1)] leave_all_def)
  with last_leave_room[OF assms, of now]
  show "timers (fst (disconnect s now st)) = timers st @ [(now + 300000, r)]"
    and "get_room (fst (disconnect s now st)) r = Found r 0 4 False"
    by (simp_all add: get_room_def)
qed

lemma last_switch:
  assumes "conns st s = Some (Some r)" and "r \<noteq> []" and "map_of (rooms st) r = Some room"
    and "participants room = [s]"
    and "(s, RoomFull) \<notin> set (snd (join_room s r' now st))"
  shows "timers (fst (join_room s r' now st)) = timers st @ [(now + 300000, r)]"
    and "get_room (fst (join_room s r' now st)) r = Found r (if r' = r then 1 else 0) 4 False"
proof -
  define st1 where "st1 = ensure_room r' now st"
  have r1: "map_of (rooms st1) r = Some room"
    using assms(3) by (auto simp: st1_def ensure_room_def AList.update_conv')
  have t1: "timers st1 = timers st" by (simp add: st1_def ensure_room_def)
  obtain room' where room': "map_of (rooms st1) r' = Some room'"
    using ensure_room_present[of r' now st] by (auto simp: st1_def)
  from assms(1,5) room' have nf: "\<not> length (participants room') \<ge> MAX_PARTICIPANTS"
    by (auto simp: join_room_def simp flip: st1_def)
  define st2 where "st2 = fst (leaveRoom s r now st1)"
  have t2: "timers st2 = timers st @ [(now + 300000, r)]"
    using r1 assms(4) by (simp add: st2_def leaveRoom_timers t1 set_delete_def)
  have m2: "map_of (rooms st2) = (map_of (rooms st1))(r \<mapsto> room\<lparr>participants := []\<rparr>)"
    using r1 assms(4) by (simp add: st2_def leaveRoom_rooms set_delete_def)
  have fst_eq: "fst (join_room s r' now st) =
      socket_join s r' (add_participant s r' room' (st2\<lparr>conns := (conns st2)(s := Some (Some r'))\<rparr>))"
    using assms(1,2) room' nf
    by (simp add: join_room_def Let_def leave_current_def st2_def flip: st1_def)
  show "timers (fst (join_room s r' now st)) = timers st @ [(now + 300000, r)]"
    by (simp add: fst_eq socket_join_def add_participant_def Let_def t2)
  show "get_room (fst (join_room s r' now st)) r = Found r (if r' = r then 1 else 0) 4 False"
    by (simp add: fst_eq socket_join_def add_participant_def Let_def get_room_def m2
          AList.update_conv' set_add_def MAX_PARTICIPANTS_def)
qed

text \<open>No handler and no sweep takes a pending cleanup away.\<close>

lemma timers_join_room: "prefix (timers st) (timers (fst (join_room s r now st)))"
proof -
  have "prefix (timers st) (timers (fst (leave_current s cur now (ensure_room r now st))))" for cur
    by (cases cur) (auto simp: leave_current_def leaveRoom_timers ensure_room_def
          split: option.splits)
  then show ?thesis
    by (auto simp: join_room_def Let_def socket_join_def add_participant_def ensure_room_def
          split: option.splits)
qed

lemma timers_leave_room: "prefix (timers st) (timers (fst (leave_room s now st)))"
  by (auto simp: leave_room_def split_def Let_def leaveRoom_timers split: option.splits)

lemma timers_disconnect: "prefix (timers st) (timers (fst (disconnect s now st)))"
  using timers_leave_room[of "leave_all s st" s now]
  by (auto simp: disconnect_def split_def Let_def leave_all_def split: option.splits)

lemma timers_step: "\<not> is_fire e \<Longrightarrow> prefix (timers st) (timers (fst (step st e)))"
  by (cases e)
     (simp_all add: timers_join_room timers_leave_room timers_disconnect connect_def
        socket_join_def relay_to_def post_rooms_def Let_def sweep_def split: option.splits)

lemma timers_run:
  "list_all (\<lambda>e. \<not> is_fire e) evs \<Longrightarrow> prefix (timers st) (timers (run st evs))"
proof (induction evs rule: rev_induct)
  case Nil
  show ?case by (simp add: run_def)
next
  case (snoc e evs)
  then have "prefix (timers st) (timers (run st evs))" by simp
  moreover from snoc.prems have "prefix (timers (run st evs)) (timers (fst (step (run st evs) e)))"
    by (simp add: timers_step)
  ultimately show ?case unfolding run_snoc by (rule prefix_order.trans)
qed

text \<open>
  C6 (as the code has it). When the only participant of a room leaves it, by a
  leave-room request, by disconnecting, or by a join-room request that is not answered
  by room-full, the room stays in the registry, a status query finds it (with 0
  participants, or with the socket itself as its 1 participant when the join-room
  asked for the same room), and one cleanup is set for 300000 ms later, behind the
  cleanups that are pending. Through any sequence of events other than the run of a
  cleanup, the pending cleanups stay as they are, in their order, at the head of the
  queue: none is ever cancelled. A pending cleanup does nothing before its time; when
  it runs, it leaves the queue and deletes its room if and only if the room is in the
  registry and empty at that moment, so a room that is occupied then is kept. No
  request of a client (connect, join-room, signalling, leave-room, disconnect, room
  creation) ever removes a room.
\<close>

theorem deferred_cleanup:
  "((e = LeaveRoom s now \<or> e = Disconnect s now
       \<or> (e = JoinRoom s r' now \<and> (s, RoomFull) \<notin> set (snd (step st e))))
      \<and> conns st s = Some (Some r) \<and> r \<noteq> [] \<and> map_of (rooms st) r = Some room
      \<and> participants room = [s] \<longrightarrow>
      get_room (fst (step st e)) r = Found r (if e = JoinRoom s r now then 1 else 0) 4 False
      \<and> timers (fst (step st e)) = timers st @ [(now + 300000, r)])
   \<and> (list_all (\<lambda>e. \<not> is_fire e) evs \<longrightarrow> prefix (timers st) (timers (run st evs)))
   \<and> (timers st = [] \<longrightarrow> timer_fire now st = st)
   \<and> (timers st = (due, r) # rest \<and> now < due \<longrightarrow> timer_fire now st = st)
   \<and> (timers st = (due, r) # rest \<and> due \<le> now \<longrightarrow>
        timers (timer_fire now st) = rest
        \<and> map_of (rooms (timer_fire now st)) =
            (case map_of (rooms st) r of
               None \<Rightarrow> map_of (rooms st)
             | Some room \<Rightarrow> if participants room = [] then (map_of (rooms st))(r := None)
                            else map_of (rooms st)))
   \<and> (\<not> is_timer e' \<and> map_of (rooms st) k \<noteq> None \<longrightarrow>
        map_of (rooms (fst (step st e'))) k \<noteq> None)"
proof (intro conjI impI)
  assume a: "(e = LeaveRoom s now \<or> e = Disconnect s now
       \<or> (e = JoinRoom s r' now \<and> (s, RoomFull) \<notin> set (snd (step st e))))
      \<and> conns st s = Some (Some r) \<and> r \<noteq> [] \<and> map_of (rooms st) r = Some room
      \<and> participants room = [s]"
  then have h: "conns st s = Some (Some r)" "r \<noteq> []" "map_of (rooms st) r = Some room"
    "participants room = [s]" by simp_all
  from a consider "e = LeaveRoom s now" | "e = Disconnect s now"
    | "e = JoinRoom s r' now" "(s, RoomFull) \<notin> set (snd (join_room s r' now st))" by auto
  then have "get_room (fst (step st e)) r = Found r (if e = JoinRoom s r now then 1 else 0) 4 False
      \<and> timers (fst (step st e)) = timers st @ [(now + 300000, r)]"
  proof cases
    case 1
    with last_leave_room[OF h, of now] show ?thesis by simp
  next
    case 2
    with last_disconnect[OF h, of now] show ?thesis by simp
  next
    case 3
    with last_switch[OF h 3(2)] show ?thesis by simp
  qed
  then show "get_room (fst (step st e)) r = Found r (if e = JoinRoom s r now then 1 else 0) 4 False"
    and "timers (fst (step st e)) = timers st @ [(now + 300000, r)]" by simp_all
next
  assume "list_all (\<lambda>e. \<not> is_fire e) evs"
  then show "prefix (timers st) (timers (run st evs))" by (rule timers_run)
next
  assume "timers st = []"
  then show "timer_fire now st = st" by (simp add: timer_fire_def)
next
  assume "timers st = (due, r) # rest \<and> now < due"
  then show "timer_fire now st = st" by (simp add: timer_fire_def)
next
  assume a: "timers st = (due, r) # rest \<and> due \<le> now"
  then show "timers (timer_fire now st) = rest"
    by (simp add: timer_fire_def cleanup_def split: option.splits)
  from a show "map_of (rooms (timer_fire now st)) =
            (case map_of (rooms st) r of
               None \<Rightarrow> map_of (rooms st)
             | Some room \<Rightarrow> if participants room = [] then (map_of (rooms st))(r := None)
                            else map_of (rooms st))"
    by (simp add: timer_fire_def cleanup_def AList.delete_conv' split: option.splits)
next
  assume "\<not> is_timer e' \<and> map_of (rooms st) k \<noteq> None"
  then show "map_of (rooms (fst (step st e'))) k \<noteq> None"
    using step_keeps by blast
qed

theorem deferred_cleanup_witness:
  "get_room (fst (step (run init busy_room) (LeaveRoom ''a'' 2000))) ''1234''
     = Found ''1234'' 0 4 False
   \<and> timers (fst (step (run init busy_room) (LeaveRoom ''a'' 2000))) = [(302000, ''1234'')]
   \<and> get_room (fst (step (run init busy_room) (Disconnect ''a'' 2000))) ''1234''
     = Found ''1234'' 0 4 False
   \<and> timers (fst (step (run init busy_room) (Disconnect ''a'' 2000))) = [(302000, ''1234'')]
   \<and> get_room (fst (step (run init busy_room) (JoinRoom ''a'' ''5678'' 2000))) ''1234''
     = Found ''1234'' 0 4 False
   \<and> timers (fst (step (run init busy_room) (JoinRoom ''a'' ''5678'' 2000)))
     = [(302000, ''1234'')]
   \<and> get_room (fst (step (run init busy_room) (JoinRoom ''a'' ''1234'' 2000))) ''1234''
     = Found ''1234'' 1 4 False
   \<and> timers (fst (step (run init busy_room) (JoinRoom ''a'' ''1234'' 2000)))
     = [(302000, ''1234'')]
   \<and> prefix [(302000, ''1234'')]
        (timers (run (run init (busy_room @ [LeaveRoom ''a'' 2000]))
                   [JoinRoom ''a'' ''1234'' 100000, LeaveRoom ''a'' 300000, Sweep 300001]))
   \<and> timer_fire 5 (run init busy_room) = run init busy_room
   \<and> timer_fire 150000 (run init (busy_room @ [LeaveRoom ''a'' 2000]))
       = run init (busy_room @ [LeaveRoom ''a'' 2000])
   \<and> timers (timer_fire 302000 (run init (busy_room @ [LeaveRoom ''a'' 2000]))) = []
   \<and> map_of (rooms (timer_fire 302000 (run init (busy_room @ [LeaveRoom ''a'' 2000])))) ''1234''
       = None
   \<and> map_of (rooms (fst (step (run init busy_room) (Signal Offer ''a'' ''b'' ''sdp'')))) ''1234''
       \<noteq> None"
proof -
  let ?st = "run init busy_room"
  let ?st' = "run init (busy_room @ [LeaveRoom ''a'' 2000])"
  let ?room = "\<lparr>participants = [''a''], createdAt = 0\<rparr>"
  let ?evs = "[JoinRoom ''a'' ''1234'' 100000, LeaveRoom ''a'' 300000, Sweep 300001]"
  have c: "conns ?st ''a'' = Some (Some ''1234'')" by code_simp
  have r: "map_of (rooms ?st) ''1234'' = Some ?room" by code_simp
  have t0: "timers ?st = []" by code_simp
  have t: "timers ?st' = [(302000, ''1234'')]" by code_simp
  have r': "map_of (rooms ?st') ''1234'' = Some \<lparr>participants = [], createdAt = 0\<rparr>"
    by code_simp
  have nf: "(''a'', RoomFull) \<notin> set (snd (step ?st (JoinRoom ''a'' ''5678'' 2000)))"
    "(''a'', RoomFull) \<notin> set (snd (step ?st (JoinRoom ''a'' ''1234'' 2000)))"
    by code_simp+
  have nofire: "list_all (\<lambda>e. \<not> is_fire e) ?evs" by simp
  from deferred_cleanup[where e = "LeaveRoom ''a'' 2000" and st = ?st and s = "''a''"
      and r = "''1234''" and room = ?room and now = 2000] c r t0
  have 1: "get_room (fst (step ?st (LeaveRoom ''a'' 2000))) ''1234'' = Found ''1234'' 0 4 False
     \<and> timers (fst (step ?st (LeaveRoom ''a'' 2000))) = [(302000, ''1234'')]"
    by simp
  from deferred_cleanup[where e = "Disconnect ''a'' 2000" and st = ?st and s = "''a''"
      and r = "''1234''" and room = ?room and now = 2000] c r t0
  have 2: "get_room (fst (step ?st (Disconnect ''a'' 2000))) ''1234'' = Found ''1234'' 0 4 False
     \<and> timers (fst (step ?st (Disconnect ''a'' 2000))) = [(302000, ''1234'')]"
    by simp
  from deferred_cleanup[where e = "JoinRoom ''a'' ''5678'' 2000" and st = ?st and s = "''a''"
      and r = "''1234''" and room = ?room and now = 2000 and r' = "''5678''"] c r t0 nf(1)
  have 3: "get_room (fst (step ?st (JoinRoom ''a'' ''5678'' 2000))) ''1234''
       = Found ''1234'' 0 4 False
     \<and> timers (fst (step ?st (JoinRoom ''a'' ''5678'' 2000))) = [(302000, ''1234'')]"
    by simp
  from deferred_cleanup[where e = "JoinRoom ''a'' ''1234'' 2000" and st = ?st and s = "''a''"
      and r = "''1234''" and room = ?room and now = 2000 and r' = "''1234''"] c r t0 nf(2)
  have 4: "get_room (fst (step ?st (JoinRoom ''a'' ''1234'' 2000))) ''1234''
       = Found ''1234'' 1 4 False
     \<and> timers (fst (step ?st (JoinRoom ''a'' ''1234'' 2000))) = [(302000, ''1234'')]"
    by simp
  from deferred_cleanup[where st = ?st' and evs = ?evs] nofire t
  have 5: "prefix [(302000, ''1234'')] (timers (run ?st' ?evs))" by simp
  from deferred_cleanup[where st = ?st and now = 5] t0
  have 6: "timer_fire 5 ?st = ?st" by simp
  from deferred_cleanup[where st = ?st' and r = "''1234''" and now = 150000 and due = 302000
      and rest = "[]"] t
  have 7: "timer_fire 150000 ?st' = ?st'" by simp
  from deferred_cleanup[where st = ?st' and r = "''1234''" and now = 302000 and due = 302000
      and rest = "[]"] t r'
  have 8: "timers (timer_fire 302000 ?st') = []
     \<and> map_of (rooms (timer_fire 302000 ?st')) ''1234'' = None" by simp
  from deferred_cleanup[where st = ?st and e' = "Signal Offer ''a'' ''b'' ''sdp''"
      and k = "''1234''"] r
  have 9: "map_of (rooms (fst (step ?st (Signal Offer ''a'' ''b'' ''sdp'')))) ''1234'' \<noteq> None"
    by simp
  from 1 2 3 4 5 6 7 8 9 show ?thesis by blast
qed

text \<open>
  C6 as stated fails: in the run \<open>rejoined\<close> the last leave is at time 300000, and
  the room is still found then; the cleanup set by the first leave runs at time 302000,
  finds the room empty and deletes it, 2000 ms after the last leave and although the
  room was rejoined after that cleanup had been set.
\<close>

theorem deferred_cleanup_counterexample:
  "get_room (run init rejoined) ''1234'' = Found ''1234'' 0 4 False
   \<and> timers (run init rejoined) = [(302000, ''1234''), (600000, ''1234'')]
   \<and> get_room (run init (rejoined @ [TimerFire 302000])) ''1234'' = NotFound"
  by code_simp

subsection \<open>Counting emissions\<close>

lemma received_append [simp]: "received (a @ b) t m = received a t m + received b t m"
  by (simp add: received_def)

lemma received_Cons [simp]:
  "received (x # xs) t m = (if x = (t, m) then 1 else 0) + received xs t m"
  by (simp add: received_def)

lemma received_Nil [simp]: "received [] t m = 0"
  by (simp add: received_def)

lemma received_to_all:
  "received (map (\<lambda>t. (t, m)) xs) t m' = (if m' = m then length (filter (\<lambda>x. x = t) xs) else 0)"
  by (induction xs) auto

lemma length_filter_distinct:
  "distinct xs \<Longrightarrow> x \<in> set xs \<Longrightarrow> length (filter (\<lambda>y. y = x) xs) = 1"
  by (induction xs) (auto simp: filter_empty_conv)

lemma received_broadcast:
  "distinct (adapter st r) \<Longrightarrow> t \<in> set (adapter st r) \<Longrightarrow> t \<notin> set (adapter st s) \<Longrightarrow>
   received (broadcast st s r m) t m = 1"
proof -
  assume a: "distinct (adapter st r)" "t \<in> set (adapter st r)" "t \<notin> set (adapter st s)"
  have "filter (\<lambda>x. x = t) (filter (\<lambda>x. x \<notin> set (adapter st s)) (adapter st r))
          = filter (\<lambda>x. x = t) (adapter st r)"
    using a(3) by (auto intro: filter_cong)
  then show ?thesis
    using length_filter_distinct[OF a(1,2)]
    by (simp add: broadcast_def received_to_all del: filter_filter)
qed

lemma received_other:
  "m' \<noteq> m \<Longrightarrow> received (broadcast st s r m) t m' = 0"
  by (simp add: broadcast_def received_to_all)

lemma room_joined_to_append [simp]:
  "room_joined_to (a @ b) t = room_joined_to a t @ room_joined_to b t"
  by (simp add: room_joined_to_def)

lemma room_joined_to_Nil: "room_joined_to [] t = []"
  by (simp add: room_joined_to_def)

lemma room_joined_to_all:
  "\<not> is_room_joined m \<Longrightarrow> room_joined_to (map (\<lambda>t. (t, m)) xs) t' = []"
  by (induction xs) (auto simp: room_joined_to_def)

lemma room_joined_to_broadcast:
  "\<not> is_room_joined m \<Longrightarrow> room_joined_to (broadcast st s r m) t' = []"
  by (simp add: broadcast_def room_joined_to_all)

lemma leave_current_out:
  "snd (leave_current s cur now st) = []
   \<or> (\<exists>c. cur = Some c \<and> c \<noteq> [] \<and> map_of (rooms st) c \<noteq> None
         \<and> snd (leave_current s cur now st)
             = broadcast (socket_leave s c st) s c (ParticipantLeft s))"
  by (cases cur) (auto simp: leave_current_def leaveRoom_out split: option.splits)

lemma join_room_success:
  assumes "conns st s = Some cur"
    and "(s, RoomFull) \<notin> set (snd (join_room s r now st))"
  shows "\<exists>room'. map_of (rooms (fst (join_room s r now st))) r = Some room'
           \<and> s \<in> set (participants room')
           \<and> snd (join_room s r now st) =
               snd (leave_current s cur now (ensure_room r now st))
               @ [(s, RoomJoined (filter (\<lambda>i. i \<noteq> s) (participants room')))]
               @ broadcast (fst (join_room s r now st)) s r (ParticipantJoined s)"
proof -
  define st1 where "st1 = ensure_room r now st"
  obtain room where room: "map_of (rooms st1) r = Some room"
    using ensure_room_present[of r now st] by (auto simp: st1_def)
  from assms room have nf: "\<not> length (participants room) \<ge> MAX_PARTICIPANTS"
    by (auto simp: join_room_def simp flip: st1_def)
  show ?thesis
    using assms(1) room nf
    by (auto simp: join_room_def Let_def split_def socket_join_def add_participant_def
          AList.update_conv' simp flip: st1_def)
qed

subsection \<open>What a run's history says about its state\<close>

lemma cleanup_frame: "adapter (cleanup r st) = adapter st" "conns (cleanup r st) = conns st"
  by (simp_all add: cleanup_def split: option.splits)

lemma timer_fire_frame:
  "adapter (timer_fire now st) = adapter st" "conns (timer_fire now st) = conns st"
  by (simp_all add: timer_fire_def cleanup_frame split: list.splits prod.splits)

lemma ensure_room_frame:
  "adapter (ensure_room r now st) = adapter st" "conns (ensure_room r now st) = conns st"
  by (simp_all add: ensure_room_def)

lemma leave_current_adapter:
  "set (adapter (fst (leave_current s cur now st)) x) \<subseteq> set (adapter st x)"
  by (cases cur) (auto simp: leave_current_def leaveRoom_adapter split: option.splits if_splits)

lemma join_room_adapter:
  "t \<in> set (adapter (fst (join_room s r now st)) x) \<Longrightarrow> t \<in> set (adapter st x) \<or> x = r"
proof -
  have e: "adapter (ensure_room r now st) = adapter st" by (simp add: ensure_room_def)
  assume "t \<in> set (adapter (fst (join_room s r now st)) x)"
  then show ?thesis
    using leave_current_adapter[of s _ now "ensure_room r now st" x]
    by (auto simp: join_room_def Let_def socket_join_def add_participant_def e
          split: option.splits if_splits)
qed

lemma leave_room_adapter:
  "set (adapter (fst (leave_room s now st)) x) \<subseteq> set (adapter st x)"
  by (auto simp: leave_room_def split_def Let_def leaveRoom_adapter split: option.splits if_splits)

lemma disconnect_adapter:
  "set (adapter (fst (disconnect s now st)) x) \<subseteq> set (adapter st x)"
  using leave_room_adapter[of s now "leave_all s st" x]
  by (auto simp: disconnect_def split_def Let_def leave_all_def split: option.splits)

lemma adapter_step:
  "t \<in> set (adapter (fst (step st e)) x) \<Longrightarrow>
   t \<in> set (adapter st x) \<or> t = x \<or> x \<in> set (room_id_of e)"
proof (cases e)
  case (Connect s)
  assume "t \<in> set (adapter (fst (step st e)) x)"
  with Connect show ?thesis
    by (auto simp: connect_def socket_join_def split: option.splits if_splits)
next
  case (JoinRoom s r now)
  assume "t \<in> set (adapter (fst (step st e)) x)"
  with JoinRoom join_room_adapter[of t s r now st x] show ?thesis by auto
next
  case (LeaveRoom s now)
  assume "t \<in> set (adapter (fst (step st e)) x)"
  with LeaveRoom leave_room_adapter[of s now st x] show ?thesis by auto
next
  case (Disconnect s now)
  assume "t \<in> set (adapter (fst (step st e)) x)"
  with Disconnect disconnect_adapter[of s now st x] show ?thesis by auto
qed (simp_all add: post_rooms_def Let_def sweep_def timer_fire_frame relay_to_def
       split: option.splits)

lemma join_room_conns:
  "conns (fst (join_room s r now st)) t = conns st t
   \<or> (conns st t \<noteq> None \<and> conns (fst (join_room s r now st)) t = Some (Some r))"
  by (auto simp: join_room_def Let_def socket_join_def add_participant_def
        ensure_room_frame split: option.splits if_splits)

lemma leave_room_conns:
  "conns (fst (leave_room s now st)) t = conns st t
   \<or> (t = s \<and> conns st t \<noteq> None \<and> conns (fst (leave_room s now st)) t = Some None)"
  by (auto simp: leave_room_def split_def Let_def split: option.splits if_splits)

lemma disconnect_conns:
  "conns (fst (disconnect s now st)) t = conns st t \<or> conns (fst (disconnect s now st)) t = None"
  using leave_room_conns[of s now "leave_all s st" t]
  by (cases "t = s") (auto simp: disconnect_def split_def Let_def split: option.splits)

lemma conns_step:
  "conns (fst (step st e)) s = Some c \<Longrightarrow>
   (conns st s = Some c \<or> (c = None \<and> (conns st s \<noteq> None \<or> s \<in> set (socket_id_of e)))
    \<or> (\<exists>r. c = Some r \<and> conns st s \<noteq> None \<and> r \<in> set (room_id_of e)))"
proof (cases e)
  case (Connect t)
  assume "conns (fst (step st e)) s = Some c"
  with Connect show ?thesis
    by (auto simp: connect_def socket_join_def split: option.splits if_splits)
next
  case (JoinRoom t r now)
  assume "conns (fst (step st e)) s = Some c"
  with JoinRoom join_room_conns[of t r now st s] show ?thesis by auto
next
  case (LeaveRoom t now)
  assume "conns (fst (step st e)) s = Some c"
  with LeaveRoom leave_room_conns[of t now st s] show ?thesis by auto
next
  case (Disconnect t now)
  assume "conns (fst (step st e)) s = Some c"
  with Disconnect disconnect_conns[of t now st s] show ?thesis by auto
qed (simp_all add: post_rooms_def Let_def sweep_def timer_fire_frame relay_to_def
       split: option.splits)

lemma room_ids_snoc [simp]: "room_ids (evs @ [e]) = room_ids evs @ room_id_of e"
  by (simp add: room_ids_def)

lemma socket_ids_snoc [simp]: "socket_ids (evs @ [e]) = socket_ids evs @ socket_id_of e"
  by (simp add: socket_ids_def)

lemma private_run:
  "t \<in> set (adapter (run init evs) x) \<Longrightarrow> t = x \<or> x \<in> set (room_ids evs)"
proof (induction evs arbitrary: t x rule: rev_induct)
  case Nil
  then show ?case by (simp add: run_def init_def)
next
  case (snoc e evs)
  from snoc.prems adapter_step[of t "run init evs" e x] snoc.IH[of t x]
  show ?case by (auto simp: run_snoc)
qed

lemma conns_run:
  "conns (run init evs) s = Some c \<Longrightarrow>
   s \<in> set (socket_ids evs) \<and> (\<forall>r. c = Some r \<longrightarrow> r \<in> set (room_ids evs))"
proof (induction evs arbitrary: c rule: rev_induct)
  case Nil
  then show ?case by (simp add: run_def init_def)
next
  case (snoc e evs)
  from snoc.prems have "conns (fst (step (run init evs) e)) s = Some c" by (simp add: run_snoc)
  from conns_step[OF this] snoc.IH show ?case by auto
qed

lemma own_room_only:
  assumes "apart evs" and "conns (run init evs) s = Some c"
  shows "set (adapter (run init evs) s) \<subseteq> {s}"
proof
  fix t assume "t \<in> set (adapter (run init evs) s)"
  from private_run[OF this] conns_run[OF assms(2)] assms(1)
  show "t \<in> {s}" by (auto simp: apart_def)
qed

lemma apart_butlast: "apart (evs @ [e]) \<Longrightarrow> apart evs"
  by (auto simp: apart_def)

text \<open>Room ids that are codes of four digits are apart from socket ids of another length.\<close>

lemma apart_codes:
  assumes "list_all is_code (room_ids evs)" and "list_all (\<lambda>s. length s \<noteq> 4) (socket_ids evs)"
  shows "apart evs"
  using assms by (auto simp: apart_def list_all_iff is_code_def)

lemma received_left:
  assumes "linked st" and "r \<noteq> []" and "map_of (rooms st) r = Some room"
    and "m \<in> set (participants room) - {s}" and "set (adapter st s) \<subseteq> {s}"
  shows "received (broadcast (socket_leave s r st) s r (ParticipantLeft s)) m (ParticipantLeft s) = 1"
proof (rule received_broadcast)
  from linkedD[OF assms(1,3,2), of m] assms(4)
  have m: "m \<in> set (adapter st r)" "m \<noteq> s" by auto
  show "distinct (adapter (socket_leave s r st) r)"
    by (simp add: socket_leave_def distinct_set_delete linked_distinct_adapter[OF assms(1)])
  show "m \<in> set (adapter (socket_leave s r st) r)"
    using m by (simp add: socket_leave_def)
  show "m \<notin> set (adapter (socket_leave s r st) s)"
    using m assms(5) by (auto simp: socket_leave_def)
qed

lemma broadcast_ensure_room:
  "broadcast (socket_leave s c (ensure_room r now st)) = broadcast (socket_leave s c st)"
  by (simp add: broadcast_def socket_leave_def ensure_room_def fun_eq_iff)




text \<open>
  The empty string as a room id is taken for no room by \<^verbatim>\<open>if (currentRoom)\<close>:
  leave-room then does nothing, though the socket is still in the participant set of
  the room with the empty id.
\<close>

lemma empty_room_id_not_left:
  "snd (step (run init [Connect ''a'', Connect ''b'', JoinRoom ''a'' [] 0, JoinRoom ''b'' [] 1])
         (LeaveRoom ''a'' 2)) = []
   \<and> map_of (rooms (run init [Connect ''a'', Connect ''b'', JoinRoom ''a'' [] 0,
                               JoinRoom ''b'' [] 1, LeaveRoom ''a'' 2])) []
       = Some \<lparr>participants = [''a'', ''b''], createdAt = 0\<rparr>"
  by code_simp

section \<open>Proofs about the quality loop\<close>

subsection \<open>The fps signal\<close>

lemma fold_scan_report:
  "fold scan_report reports acc
     = fold (\<lambda>f a. lower a f) (positive (map fps_of (filter is_outbound_video reports))) acc"
  by (induction reports arbitrary: acc)
     (auto simp: scan_report_def positive_def lower_def Let_def split: option.splits)

lemma fold_scan_peer:
  "fold scan_peer peers acc = fold (\<lambda>f a. lower a f) (positive (observed peers)) acc"
proof (induction peers arbitrary: acc)
  case Nil
  show ?case by (simp add: observed_def positive_def)
next
  case (Cons p ps)
  have "observed (p # ps)
          = (case p of None \<Rightarrow> [] | Some reports \<Rightarrow> map fps_of (filter is_outbound_video reports))
            @ observed ps"
    by (simp add: observed_def)
  then show ?case
    using Cons[of "scan_peer p acc"]
    by (cases p) (simp_all add: scan_peer_def fold_scan_report positive_def)
qed

lemma fold_lower_Some: "fold (\<lambda>f a. lower a f) fs (Some m) = Some (fold min fs m)"
  by (induction fs arbitrary: m) (simp_all add: lower_def min.commute)

lemma fold_lower_None:
  "fold (\<lambda>f a. lower a f) fs None = (if fs = [] then None else Some (Min (set fs)))"
proof (cases fs)
  case Nil
  then show ?thesis by simp
next
  case (Cons f fs')
  have "lower None f = Some f" by (simp add: lower_def)
  with Cons show ?thesis
    using Min.set_eq_fold[of f fs'] by (simp add: fold_lower_Some)
qed

text \<open>
  C4 (as the code has it). The value handed to \<^verbatim>\<open>adaptQuality\<close> on a sampling tick
  is the least of the strictly positive frame rates on the outbound video reports of
  the peers whose stats could be read. Readings of 0 and reports without a frame rate
  are skipped, and when no reading is positive \<^verbatim>\<open>adaptQuality\<close> is not called and
  the state stays as it is.
\<close>

theorem signal_is_least_positive:
  "minFps_of peers =
     (if positive (observed peers) = [] then None
      else Some (Min (set (positive (observed peers)))))
   \<and> collectStats peers q =
     (if peers_size q = 0 \<or> positive (observed peers) = [] then Inr q
      else adaptQuality (Min (set (positive (observed peers)))) q)"
  by (simp add: collectStats_def minFps_of_def fold_scan_peer fold_lower_None)

text \<open>
  C4 as stated fails: with one peer at 0 frames per second and one at 30, the least
  observed value is 0, and the value handed to \<^verbatim>\<open>adaptQuality\<close> is 30.
\<close>

theorem signal_counterexample:
  "observed two_peers = [0, 30]
   \<and> Min (set (observed two_peers)) = 0
   \<and> minFps_of two_peers = Some 30
   \<and> collectStats two_peers (with_one_peer 0) = adaptQuality 30 (with_one_peer 0)"
  by (simp add: two_peers_def observed_def video_report_def is_outbound_video_def fps_of_def
        minFps_of_def scan_peer_def scan_report_def collectStats_def with_one_peer_def)

subsection \<open>The thresholds\<close>

lemma round_half_even_near: "\<bar>round_half_even m k * 2 ^ k - m\<bar> * 2 \<le> 2 ^ k"
proof -
  define q where "q = m div 2 ^ k"
  define r where "r = m mod 2 ^ k"
  have m: "m = q * 2 ^ k + r" unfolding q_def r_def by (rule div_mult_mod_eq[symmetric])
  have r: "0 \<le> r" "r < 2 ^ k" by (simp_all add: r_def)
  show ?thesis
    unfolding round_half_even_def Let_def q_def[symmetric] r_def[symmetric]
    using r by (auto simp: m algebra_simps)
qed

text \<open>
  The product of two positive numbers: the exponents add up, the mantissa is the exact
  product of the mantissas brought to 53 bits, off by at most half a unit of the last
  place.
\<close>

lemma js_times_rounds:
  assumes "0 < fst a" "0 < fst b" and k: "k = nat (bitlen (fst a * fst b) - 53)"
  shows "snd (js_times a b) = snd a + snd b + int k"
    and "\<bar>fst (js_times a b) * 2 ^ k - fst a * fst b\<bar> * 2 \<le> 2 ^ k"
    and "fst (js_times a b) \<le> 2 ^ 53"
proof -
  let ?m = "fst a * fst b"
  have f: "fst (js_times a b) = round_half_even ?m k"
    and s: "snd (js_times a b) = snd a + snd b + int k"
    by (simp_all add: js_times_def Let_def k)
  show "snd (js_times a b) = snd a + snd b + int k" by (rule s)
  show "\<bar>fst (js_times a b) * 2 ^ k - fst a * fst b\<bar> * 2 \<le> 2 ^ k"
    unfolding f by (rule round_half_even_near)
  have pos: "0 < ?m" using assms by simp
  from bitlen_bounds[OF pos] have up: "?m < 2 ^ nat (bitlen ?m)" by simp
  have "nat (bitlen ?m) \<le> 53 + k" by (simp add: k)
  then have "(2::int) ^ nat (bitlen ?m) \<le> 2 ^ (53 + k)" by (intro power_increasing) simp_all
  with up have lt: "?m < 2 ^ 53 * 2 ^ k" by (simp add: power_add)
  have "?m div 2 ^ k * 2 ^ k + ?m mod 2 ^ k = ?m" by (rule div_mult_mod_eq)
  moreover have "0 \<le> ?m mod 2 ^ k" by simp
  ultimately have "?m div 2 ^ k * 2 ^ k \<le> ?m" by linarith
  with lt have "?m div 2 ^ k * 2 ^ k < 2 ^ 53 * 2 ^ k" by linarith
  then have q: "?m div 2 ^ k < 2 ^ 53" by (simp add: mult_less_cancel_right)
  show "fst (js_times a b) \<le> 2 ^ 53"
    unfolding f round_half_even_def Let_def using q by auto
qed

text \<open>The two literals are the binary64 values nearest to 6/10 and 85/100.\<close>

lemma literals_nearest:
  "2 ^ 52 \<le> fst lit_0_6" "fst lit_0_6 < 2 ^ 53" "\<bar>val lit_0_6 - 6 / 10\<bar> * 2 ^ 54 < 1"
  "2 ^ 52 \<le> fst lit_0_85" "fst lit_0_85 < 2 ^ 53" "\<bar>val lit_0_85 - 85 / 100\<bar> * 2 ^ 54 < 1"
  by (simp_all add: lit_0_6_def lit_0_85_def val_def)

lemma products:
  "js_times (of_frameRate 30) lit_0_6 = (5066549580791808, - 48)"
  "js_times (of_frameRate 24) lit_0_6 = (8106479329266892, - 49)"
  "js_times (of_frameRate 20) lit_0_6 = (6755399441055744, - 49)"
  "js_times (of_frameRate 30) lit_0_85 = (7177611906121728, - 48)"
  "js_times (of_frameRate 24) lit_0_85 = (5742089524897382, - 48)"
  "js_times (of_frameRate 20) lit_0_85 = (4785074604081152, - 48)"
  by code_simp+

lemma tier_cases:
  "i < 5 \<Longrightarrow> i = 0 \<or> i = 1 \<or> i = 2 \<or> i = 3 \<or> i = (4::nat)"
  by arith

lemma frameRate_table:
  "i < 5 \<Longrightarrow> frameRate (QUALITY_TIERS ! i) = (if i < 3 then 30 else if i = 3 then 24 else 20)"
  using tier_cases[of i] by (auto simp: QUALITY_TIERS_def)

lemma low_table:
  "currentTierIndex q < 5 \<Longrightarrow>
   low_of q = (if currentTierIndex q < 3 then 18
               else if currentTierIndex q = 3 then 8106479329266892 / 2 ^ 49 else 12)"
  by (simp add: low_of_def frameRate_table products val_def)

lemma high_table:
  "currentTierIndex q < 5 \<Longrightarrow>
   high_of q = (if currentTierIndex q < 3 then 51 / 2
                else if currentTierIndex q = 3 then 5742089524897382 / 2 ^ 48 else 17)"
  by (simp add: high_of_def frameRate_table products val_def)

lemma target_table:
  "currentTierIndex q < 5 \<Longrightarrow>
   target_of q = (if currentTierIndex q < 3 then 30 else if currentTierIndex q = 3 then 24 else 20)"
  by (simp add: target_of_def frameRate_table)

lemma low_pos: "currentTierIndex q < 5 \<Longrightarrow> 0 < low_of q"
  by (simp add: low_table)

lemma low_less_high: "currentTierIndex q < 5 \<Longrightarrow> low_of q < high_of q"
  by (simp add: low_table high_table)

lemma low_of_counters [simp]:
  "low_of (q\<lparr>improveCount := i\<rparr>) = low_of q"
  "low_of (q\<lparr>degradeCount := d\<rparr>) = low_of q"
  by (simp_all add: low_of_def)

lemma high_of_counters [simp]:
  "high_of (q\<lparr>improveCount := i\<rparr>) = high_of q"
  "high_of (q\<lparr>degradeCount := d\<rparr>) = high_of q"
  by (simp_all add: high_of_def)

subsection \<open>Hysteresis\<close>

lemma length_QUALITY_TIERS: "length QUALITY_TIERS = 5"
  by (simp add: QUALITY_TIERS_def)

text \<open>The three readings of a sample, for a manager with peers and a tier of the table.\<close>

lemma adapt_bad:
  assumes "peers_size q > 0" "currentTierIndex q < 5" "0 < f" "f < low_of q"
  shows "adaptQuality f q =
           Inr (if degradeCount q + 1 \<ge> 3 \<and> currentTierIndex q < 4
                then q\<lparr>currentTierIndex := currentTierIndex q + 1, degradeCount := 0,
                        improveCount := 0, applied := applied q @ [currentTierIndex q + 1]\<rparr>
                else q\<lparr>degradeCount := degradeCount q + 1, improveCount := 0\<rparr>)"
  using assms
  by (simp add: adaptQuality_def Let_def length_QUALITY_TIERS applyCurrentTier_def
        flip: low_of_def high_of_def)

lemma adapt_good:
  assumes "peers_size q > 0" "currentTierIndex q < 5" "f \<ge> high_of q"
  shows "adaptQuality f q =
           Inr (if improveCount q + 1 \<ge> 8 \<and> currentTierIndex q > 0
                then q\<lparr>currentTierIndex := currentTierIndex q - 1, degradeCount := 0,
                        improveCount := 0, applied := applied q @ [currentTierIndex q - 1]\<rparr>
                else q\<lparr>improveCount := improveCount q + 1, degradeCount := 0\<rparr>)"
proof -
  have "\<not> f < low_of q" using assms(3) low_less_high[OF assms(2)] by simp
  then show ?thesis using assms
    by (simp add: adaptQuality_def Let_def length_QUALITY_TIERS applyCurrentTier_def
          flip: low_of_def high_of_def)
qed

lemma adapt_neutral:
  assumes "peers_size q > 0" "currentTierIndex q < 5"
    and "f \<le> 0 \<or> low_of q \<le> f" and "f < high_of q"
  shows "adaptQuality f q = Inr (q\<lparr>degradeCount := 0, improveCount := 0\<rparr>)"
  using assms
  by (auto simp: adaptQuality_def Let_def length_QUALITY_TIERS simp flip: low_of_def high_of_def)

lemma adapt_all_append:
  "adapt_all (xs @ ys) q = (case adapt_all xs q of Inl e \<Rightarrow> Inl e | Inr q' \<Rightarrow> adapt_all ys q')"
  by (induction xs arbitrary: q) (auto split: sum.splits)

lemma good_streak:
  assumes "peers_size q > 0" "currentTierIndex q < 5"
    and "\<forall>f \<in> set fs. f \<ge> high_of q" and "improveCount q + length fs < 8"
  shows "adapt_all fs q =
           Inr (if fs = [] then q
                else q\<lparr>improveCount := improveCount q + length fs, degradeCount := 0\<rparr>)"
  using assms
proof (induction fs arbitrary: q)
  case Nil
  show ?case by simp
next
  case (Cons f fs)
  let ?q = "q\<lparr>improveCount := improveCount q + 1, degradeCount := 0\<rparr>"
  have 1: "adaptQuality f q = Inr ?q"
    using Cons.prems by (simp add: adapt_good)
  have "adapt_all fs ?q =
           Inr (if fs = [] then ?q
                else ?q\<lparr>improveCount := improveCount ?q + length fs, degradeCount := 0\<rparr>)"
    using Cons.prems by (intro Cons.IH) simp_all
  then show ?case using 1 by simp
qed

text \<open>
  C3 (as the code has it). The two thresholds of a tier are the binary64 products
  \<^verbatim>\<open>targetFps * 0.6\<close> and \<^verbatim>\<open>targetFps * 0.85\<close>: 18 and 25.5 at the tiers of 30
  frames per second, 12 and 17 at the tier of 20, which are 60 and 85 percent of the
  frame rate, and \<open>8106479329266892 / 2 ^ 49\<close> and \<open>5742089524897382 / 2 ^ 48\<close> at the
  tier of 24, which are below 14.4 and 20.4. While the manager has at least one peer
  and its tier index is one of the table: from both counters at 0, three consecutive
  samples that are each strictly positive and strictly below the lower threshold of the
  current tier raise the tier index by exactly 1, unless it is already the last index,
  where it stays; from both counters at 0, eight consecutive samples that are each at
  least the upper threshold lower the tier index by exactly 1, unless it is already 0,
  where it stays; a sample from the lower threshold up to, but below, the upper one
  sets both counters to 0 and changes nothing else; and whenever a call changes the
  tier index, both counters are 0 after it.
\<close>

theorem hysteresis_steps:
  assumes "peers_size q > 0" and "currentTierIndex q < 5"
  shows
    "(degradeCount q = 0 \<and> improveCount q = 0
        \<and> 0 < a \<and> a < low_of q \<and> 0 < b \<and> b < low_of q \<and> 0 < c \<and> c < low_of q
      \<longrightarrow> (\<exists>q'. adapt_all [a, b, c] q = Inr q'
             \<and> currentTierIndex q' =
                 (if currentTierIndex q < 4 then currentTierIndex q + 1 else currentTierIndex q)))
     \<and> (degradeCount q = 0 \<and> improveCount q = 0 \<and> length fs = 8
        \<and> (\<forall>f \<in> set fs. f \<ge> high_of q)
      \<longrightarrow> (\<exists>q'. adapt_all fs q = Inr q'
             \<and> currentTierIndex q' =
                 (if currentTierIndex q > 0 then currentTierIndex q - 1 else currentTierIndex q)))
     \<and> (low_of q \<le> f \<and> f < high_of q
      \<longrightarrow> adaptQuality f q = Inr (q\<lparr>degradeCount := 0, improveCount := 0\<rparr>))
     \<and> (\<exists>q'. adaptQuality f q = Inr q'
           \<and> (currentTierIndex q' \<noteq> currentTierIndex q
                \<longrightarrow> degradeCount q' = 0 \<and> improveCount q' = 0))
     \<and> low_of q = (if currentTierIndex q = 3 then 8106479329266892 / 2 ^ 49
                   else target_of q * 0.6)
     \<and> high_of q = (if currentTierIndex q = 3 then 5742089524897382 / 2 ^ 48
                    else target_of q * 0.85)
     \<and> 0 < low_of q \<and> low_of q \<le> target_of q * 0.6 \<and> high_of q \<le> target_of q * 0.85"
proof (intro conjI impI)
  assume a: "degradeCount q = 0 \<and> improveCount q = 0
        \<and> 0 < a \<and> a < low_of q \<and> 0 < b \<and> b < low_of q \<and> 0 < c \<and> c < low_of q"
  let ?q1 = "q\<lparr>degradeCount := 1, improveCount := 0\<rparr>"
  let ?q2 = "q\<lparr>degradeCount := 2, improveCount := 0\<rparr>"
  have 1: "adaptQuality a q = Inr ?q1" using assms a by (simp add: adapt_bad)
  have 2: "adaptQuality b ?q1 = Inr ?q2" using assms a by (simp add: adapt_bad)
  have 3: "adaptQuality c ?q2 =
             Inr (if currentTierIndex q < 4
                  then q\<lparr>currentTierIndex := currentTierIndex q + 1, degradeCount := 0,
                          improveCount := 0, applied := applied q @ [currentTierIndex q + 1]\<rparr>
                  else q\<lparr>degradeCount := 3, improveCount := 0\<rparr>)"
    using assms a by (simp add: adapt_bad)
  show "\<exists>q'. adapt_all [a, b, c] q = Inr q'
             \<and> currentTierIndex q' =
                 (if currentTierIndex q < 4 then currentTierIndex q + 1 else currentTierIndex q)"
    using 1 2 3 by simp
next
  assume a: "degradeCount q = 0 \<and> improveCount q = 0 \<and> length fs = 8
        \<and> (\<forall>f \<in> set fs. f \<ge> high_of q)"
  then have ne: "fs \<noteq> []" by auto
  with a have fs: "fs = butlast fs @ [last fs]" "length (butlast fs) = 7" "fs \<noteq> []"
    by simp_all
  let ?q7 = "q\<lparr>improveCount := 7, degradeCount := 0\<rparr>"
  have "\<forall>f \<in> set (butlast fs). f \<ge> high_of q"
    using a by (auto dest: in_set_butlastD)
  moreover have "butlast fs \<noteq> []" using fs(2) by (auto simp del: length_butlast)
  ultimately have 7: "adapt_all (butlast fs) q = Inr ?q7"
    using good_streak[OF assms, of "butlast fs"] a fs(2) by simp
  have "last fs \<ge> high_of q" using a fs(3) by simp
  then have 8: "adaptQuality (last fs) ?q7 =
             Inr (if currentTierIndex q > 0
                  then q\<lparr>currentTierIndex := currentTierIndex q - 1, degradeCount := 0,
                          improveCount := 0, applied := applied q @ [currentTierIndex q - 1]\<rparr>
                  else q\<lparr>improveCount := 8, degradeCount := 0\<rparr>)"
    using assms by (simp add: adapt_good)
  have "adapt_all fs q = adapt_all [last fs] ?q7"
    using 7 by (subst fs(1)) (simp add: adapt_all_append)
  then show "\<exists>q'. adapt_all fs q = Inr q'
             \<and> currentTierIndex q' =
                 (if currentTierIndex q > 0 then currentTierIndex q - 1 else currentTierIndex q)"
    using 8 by simp
next
  assume "low_of q \<le> f \<and> f < high_of q"
  then show "adaptQuality f q = Inr (q\<lparr>degradeCount := 0, improveCount := 0\<rparr>)"
    using assms by (simp add: adapt_neutral)
next
  consider "0 < f \<and> f < low_of q" | "f \<ge> high_of q"
    | "(f \<le> 0 \<or> low_of q \<le> f) \<and> f < high_of q"
    by linarith
  then show "\<exists>q'. adaptQuality f q = Inr q'
           \<and> (currentTierIndex q' \<noteq> currentTierIndex q
                \<longrightarrow> degradeCount q' = 0 \<and> improveCount q' = 0)"
  proof cases
    case 1
    then show ?thesis using assms by (simp add: adapt_bad)
  next
    case 2
    then show ?thesis using assms by (simp add: adapt_good)
  next
    case 3
    then show ?thesis using assms by (simp add: adapt_neutral)
  qed
next
  show "low_of q = (if currentTierIndex q = 3 then 8106479329266892 / 2 ^ 49
                   else target_of q * 0.6)"
    using assms(2) by (simp add: low_table target_table)
  show "high_of q = (if currentTierIndex q = 3 then 5742089524897382 / 2 ^ 48
                    else target_of q * 0.85)"
    using assms(2) by (simp add: high_table target_table)
  show "0 < low_of q" using assms(2) by (rule low_pos)
  show "low_of q \<le> target_of q * 0.6" using assms(2) by (simp add: low_table target_table)
  show "high_of q \<le> target_of q * 0.85" using assms(2) by (simp add: high_table target_table)
qed

text \<open>
  C3 as stated fails: the sample \<^verbatim>\<open>14.399999999999999\<close> is strictly positive and
  strictly below 60 percent of the 24 frames per second of tier 3, which is 14.4; the
  sampler hands it to \<^verbatim>\<open>adaptQuality\<close> when it is the frame rate of the only peer,
  and three consecutive such samples leave a manager with one peer at tier 3, with both
  counters at 0.
\<close>

theorem hysteresis_steps_counterexample:
  "0 < peers_size (with_one_peer 3)
   \<and> 0 < below_14_4
   \<and> target_of (with_one_peer 3) = 24
   \<and> below_14_4 < target_of (with_one_peer 3) * 0.6
   \<and> collectStats [Some [video_report below_14_4]] (with_one_peer 3)
       = adaptQuality below_14_4 (with_one_peer 3)
   \<and> adapt_all [below_14_4, below_14_4, below_14_4] (with_one_peer 3) = Inr (with_one_peer 3)
   \<and> currentTierIndex (with_one_peer 3) = 3"
proof -
  have 0: "0 < below_14_4" by (simp add: below_14_4_def)
  have 1: "adaptQuality below_14_4 (with_one_peer 3) = Inr (with_one_peer 3)"
    by (simp add: adaptQuality_def with_one_peer_def QUALITY_TIERS_def products val_def
          below_14_4_def)
  have 2: "target_of (with_one_peer 3) = 24"
    by (simp add: target_of_def with_one_peer_def QUALITY_TIERS_def)
  have 3: "collectStats [Some [video_report below_14_4]] (with_one_peer 3)
       = adaptQuality below_14_4 (with_one_peer 3)"
    using 0 by (simp add: collectStats_def minFps_of_def scan_peer_def scan_report_def
          video_report_def is_outbound_video_def fps_of_def with_one_peer_def)
  show ?thesis
    by (simp add: 1 2 3) (simp add: with_one_peer_def below_14_4_def)
qed

theorem hysteresis_steps_witness:
  "0 < peers_size (with_one_peer 0) \<and> currentTierIndex (with_one_peer 0) < 5
   \<and> (15::real) < low_of (with_one_peer 0)
   \<and> map_sum id currentTierIndex (adapt_all [15, 15, 15] (with_one_peer 0)) = Inr 1
   \<and> (14::real) < low_of (with_one_peer 3)
   \<and> map_sum id currentTierIndex (adapt_all [14, 14, 14] (with_one_peer 3)) = Inr 4
   \<and> (30::real) \<ge> high_of (with_one_peer 1)
   \<and> map_sum id currentTierIndex (adapt_all (replicate 8 30) (with_one_peer 1)) = Inr 0
   \<and> low_of (with_one_peer 0) \<le> (20::real) \<and> (20::real) < high_of (with_one_peer 0)
   \<and> adaptQuality 20 ((with_one_peer 0)\<lparr>degradeCount := 2\<rparr>) = Inr (with_one_peer 0)
   \<and> low_of (with_one_peer 0) = 18 \<and> high_of (with_one_peer 0) = 51 / 2
   \<and> low_of (with_one_peer 3) = 8106479329266892 / 2 ^ 49
   \<and> high_of (with_one_peer 3) = 5742089524897382 / 2 ^ 48"
proof -
  have p: "0 < peers_size (with_one_peer i)" for i by (simp add: with_one_peer_def)
  have i: "currentTierIndex (with_one_peer i) = i" for i by (simp add: with_one_peer_def)
  have t0: "target_of (with_one_peer 0) = 30"
    by (simp add: target_of_def with_one_peer_def QUALITY_TIERS_def)
  have c: "degradeCount (with_one_peer i) = 0 \<and> improveCount (with_one_peer i) = 0" for i
    by (simp add: with_one_peer_def)
  from hysteresis_steps[OF p, of 0] i[of 0] t0
  have l0: "low_of (with_one_peer 0) = 18" and h0: "high_of (with_one_peer 0) = 51 / 2"
    by simp_all
  have h1: "high_of (with_one_peer 1) = 51 / 2"
    using h0 by (simp add: high_of_def with_one_peer_def QUALITY_TIERS_def)
  from hysteresis_steps[OF p, of 3] i[of 3]
  have l3: "low_of (with_one_peer 3) = 8106479329266892 / 2 ^ 49"
    and h3: "high_of (with_one_peer 3) = 5742089524897382 / 2 ^ 48"
    by simp_all
  from hysteresis_steps[OF p, of 0 15 15 15] i[of 0] l0 c[of 0]
  have "\<exists>q'. adapt_all [15, 15, 15] (with_one_peer 0) = Inr q' \<and> currentTierIndex q' = 1"
    by (simp del: adapt_all.simps)
  then obtain q' where "adapt_all [15, 15, 15] (with_one_peer 0) = Inr q'"
    and "currentTierIndex q' = 1" by blast
  then have 1: "map_sum id currentTierIndex (adapt_all [15, 15, 15] (with_one_peer 0)) = Inr 1"
    by (simp del: adapt_all.simps)
  from hysteresis_steps[OF p, of 3 14 14 14] i[of 3] l3 c[of 3]
  have "\<exists>q'. adapt_all [14, 14, 14] (with_one_peer 3) = Inr q' \<and> currentTierIndex q' = 4"
    by (simp del: adapt_all.simps)
  then obtain q3 where "adapt_all [14, 14, 14] (with_one_peer 3) = Inr q3"
    and "currentTierIndex q3 = 4" by blast
  then have 4: "map_sum id currentTierIndex (adapt_all [14, 14, 14] (with_one_peer 3)) = Inr 4"
    by (simp del: adapt_all.simps)
  have g: "\<forall>f \<in> set (replicate 8 30). f \<ge> high_of (with_one_peer 1)"
    using h1 by simp
  from hysteresis_steps[OF p, where i1 = 1 and fs = "replicate 8 30"] i[of 1]
  have "degradeCount (with_one_peer 1) = 0 \<and> improveCount (with_one_peer 1) = 0
        \<and> length (replicate 8 (30::real)) = 8
        \<and> (\<forall>f \<in> set (replicate 8 30). f \<ge> high_of (with_one_peer 1))
      \<longrightarrow> (\<exists>q'. adapt_all (replicate 8 30) (with_one_peer 1) = Inr q'
             \<and> currentTierIndex q' = 0)"
    by (simp del: adapt_all.simps replicate.simps set_replicate)
  with c[of 1] g
  have "\<exists>q'. adapt_all (replicate 8 30) (with_one_peer 1) = Inr q' \<and> currentTierIndex q' = 0"
    by (simp del: adapt_all.simps replicate.simps)
  then obtain q'' where "adapt_all (replicate 8 30) (with_one_peer 1) = Inr q''"
    and "currentTierIndex q'' = 0" by blast
  then have 2: "map_sum id currentTierIndex (adapt_all (replicate 8 30) (with_one_peer 1)) = Inr 0"
    by (simp del: adapt_all.simps replicate.simps)
  have p': "0 < peers_size ((with_one_peer 0)\<lparr>degradeCount := 2\<rparr>)"
    by (simp add: with_one_peer_def)
  have i': "currentTierIndex ((with_one_peer 0)\<lparr>degradeCount := 2\<rparr>) = 0"
    by (simp add: with_one_peer_def)
  have r: "(with_one_peer 0)\<lparr>degradeCount := 0, improveCount := 0\<rparr> = with_one_peer 0"
    by (simp add: with_one_peer_def)
  from hysteresis_steps[OF p', where f = 20] i' l0 h0
  have 3: "adaptQuality 20 ((with_one_peer 0)\<lparr>degradeCount := 2\<rparr>) = Inr (with_one_peer 0)"
    by (simp add: r)
  from p[of 0] i[of 0] l0 h0 h1 l3 h3 1 2 3 4 show ?thesis
    by (simp del: adapt_all.simps replicate.simps)
qed

text \<open>Without peers a sample changes nothing.\<close>

lemma adapt_no_peers: "peers_size q = 0 \<Longrightarrow> adaptQuality f q = Inr q"
  by (simp add: adaptQuality_def)


section \<open>Proofs about the room code extraction\<close>

lemma window_at_Suc: "window_at (c # s) (Suc i) = window_at s i"
  by (simp add: window_at_def add.commute)

lemma window_at_0: "window_at s 0 = match_here s"
proof (cases "drop 4 s")
  case Nil
  then show ?thesis by (simp add: window_at_def match_here_def)
next
  case (Cons x xs)
  then have "4 < length s" "s ! 4 = x"
    by (auto simp: nth_via_drop intro: ccontr)
  with Cons show ?thesis by (simp add: window_at_def match_here_def)
qed

lemma windows_Cons:
  "filter (window_at (c # s)) (rev [0..<length (c # s)])
     = map Suc (filter (window_at s) (rev [0..<length s]))
       @ (if match_here (c # s) then [0] else [])"
proof -
  have "[0..<length (c # s)] = 0 # map Suc [0..<length s]"
    by (simp add: upt_conv_Cons map_Suc_upt del: upt_Suc)
  then show ?thesis
    by (simp add: filter_map comp_def window_at_Suc window_at_0 rev_map del: upt_Suc)
qed

lemma last_window_lastw: "last_window s = lastw s"
proof (induction s)
  case Nil
  show ?case by (simp add: last_window_def)
next
  case (Cons c s)
  show ?case
  proof (cases "filter (window_at s) (rev [0..<length s])")
    case Nil
    with Cons have "lastw s = None" by (simp add: last_window_def)
    with Nil show ?thesis
      unfolding last_window_def windows_Cons by simp
  next
    case (Cons j js)
    with Cons.IH have "lastw s = Some (take 4 (drop j s))" by (simp add: last_window_def)
    with Cons show ?thesis
      unfolding last_window_def windows_Cons by simp
  qed
qed

lemma no_match_across:
  assumes "case rest of [] \<Rightarrow> True | c # _ \<Rightarrow> \<not> is_digit c"
  shows "\<not> match_here (x # rest)" "\<not> match_here (x # y # rest)" "\<not> match_here (x # y # z # rest)"
  using assms by (auto simp: match_here_def split: list.splits)


lemma lastw_after_match:
  assumes "match_here s"
  shows "lastw s = (case lastw (drop 4 s) of None \<Rightarrow> Some (take 4 s) | Some w \<Rightarrow> Some w)"
proof -
  from assms obtain a b c d rest where s: "s = a # b # c # d # rest"
    by (auto simp: match_here_def Suc_le_length_iff numeral_eq_Suc)
  with assms have r: "case rest of [] \<Rightarrow> True | c # _ \<Rightarrow> \<not> is_digit c"
    by (simp add: match_here_def)
  show ?thesis
    using assms no_match_across[OF r] unfolding s
    by (simp split: option.splits)
qed


lemma last_match_lastw: "last_match s = lastw s"
proof (induction s rule: match_all.induct)
  case (1 s)
  show ?case
  proof (cases "s = []")
    case True
    then show ?thesis by (simp add: last_match_def match_all.simps)
  next
    case ne: False
    show ?thesis
    proof (cases "match_here s")
      case True
      have "last_match s = (case last_match (drop 4 s) of None \<Rightarrow> Some (take 4 s) | Some w \<Rightarrow> Some w)"
        using ne True by (subst last_match_def, subst match_all.simps)
                         (simp add: last_match_def split: list.splits)
      also have "\<dots> = (case lastw (drop 4 s) of None \<Rightarrow> Some (take 4 s) | Some w \<Rightarrow> Some w)"
        using "1.IH"(1)[OF ne True] by simp
      finally show ?thesis using lastw_after_match[OF True] by simp
    next
      case False
      have "last_match s = last_match (tl s)"
        using ne False by (subst last_match_def, subst match_all.simps) (simp add: last_match_def)
      also have "\<dots> = lastw (tl s)" using "1.IH"(2)[OF ne False] .
      also have "\<dots> = lastw s" using ne False by (cases s) (simp_all split: option.splits)
      finally show ?thesis .
    qed
  qed
qed


lemma extractRoomId_last_window: "extractRoomId input = last_window (trim input)"
proof -
  have "extractRoomId input = (if trim input = [] then None else last_match (trim input))"
    by (simp add: extractRoomId_def Let_def last_match_def)
  also have "\<dots> = lastw (trim input)"
    by (simp add: last_match_lastw)
  finally show ?thesis by (simp add: last_window_lastw)
qed


lemma filter_down_Nil: "(filter P (rev [0..<n]) = []) = (\<forall>i<n. \<not> P i)"
  by (auto simp: filter_empty_conv)

lemma filter_down_Cons:
  "filter P (rev [0..<n]) = i # js \<Longrightarrow> P i \<and> i < n \<and> (\<forall>j. i < j \<and> j < n \<longrightarrow> \<not> P j)"
proof (induction n)
  case 0
  then show ?case by simp
next
  case (Suc n)
  show ?case
  proof (cases "P n")
    case True
    with Suc.prems have "i = n" by simp
    with True show ?thesis by auto
  next
    case False
    with Suc.prems have "filter P (rev [0..<n]) = i # js" by simp
    from Suc.IH[OF this] have "P i" "i < n" "\<forall>j. i < j \<and> j < n \<longrightarrow> \<not> P j" by simp_all
    with False show ?thesis
      by (metis less_Suc_eq)
  qed
qed

lemma window_at_less: "window_at s i \<Longrightarrow> i < length s"
  by (simp add: window_at_def)




text \<open>
  C9. For every input, with \<open>t\<close> the input without its surrounding white space:
  \<^verbatim>\<open>extractRoomId\<close> returns no code exactly when \<open>t\<close> has no position at which four
  digits stand that are not followed by a further digit; otherwise it returns the four
  digits at the last such position.
\<close>

theorem extractRoomId_last_run:
  "(extractRoomId input = None \<longleftrightarrow> (\<forall>i. \<not> window_at (trim input) i))
   \<and> (extractRoomId input = Some w \<longleftrightarrow>
        (\<exists>i. window_at (trim input) i \<and> (\<forall>j. window_at (trim input) j \<longrightarrow> j \<le> i)
             \<and> w = take 4 (drop i (trim input))))"
proof -
  let ?t = "trim input"
  let ?ws = "filter (window_at ?t) (rev [0..<length ?t])"
  show ?thesis
  proof (cases ?ws)
    case Nil
    then have "\<forall>i<length ?t. \<not> window_at ?t i"
      by (simp only: filter_down_Nil)
    then have none: "\<forall>i. \<not> window_at ?t i"
      using window_at_less[of ?t] by blast
    from Nil have "extractRoomId input = None"
      by (simp add: extractRoomId_last_window last_window_def)
    with none show ?thesis by simp
  next
    case (Cons i js)
    from filter_down_Cons[OF Cons]
    have i: "window_at ?t i" and above: "\<forall>j. i < j \<and> j < length ?t \<longrightarrow> \<not> window_at ?t j"
      by simp_all
    have top: "\<forall>j. window_at ?t j \<longrightarrow> j \<le> i"
    proof (intro allI impI)
      fix j assume j: "window_at ?t j"
      then have "j < length ?t" by (rule window_at_less)
      with above j show "j \<le> i" by (meson not_less)
    qed
    from Cons have e: "extractRoomId input = Some (take 4 (drop i ?t))"
      by (simp add: extractRoomId_last_window last_window_def)
    have uniq: "i' = i" if "window_at ?t i'" "\<forall>j. window_at ?t j \<longrightarrow> j \<le> i'" for i'
      using that i top by (meson order_antisym)
    have "extractRoomId input \<noteq> None" using e by simp
    moreover have "\<not> (\<forall>i. \<not> window_at ?t i)" using i by blast
    moreover have "(extractRoomId input = Some w) =
        (\<exists>i. window_at ?t i \<and> (\<forall>j. window_at ?t j \<longrightarrow> j \<le> i) \<and> w = take 4 (drop i ?t))"
    proof
      assume "extractRoomId input = Some w"
      with e have "w = take 4 (drop i ?t)" by simp
      with i top show "\<exists>i. window_at ?t i \<and> (\<forall>j. window_at ?t j \<longrightarrow> j \<le> i)
          \<and> w = take 4 (drop i ?t)" by blast
    next
      assume "\<exists>i. window_at ?t i \<and> (\<forall>j. window_at ?t j \<longrightarrow> j \<le> i)
          \<and> w = take 4 (drop i ?t)"
      then obtain i' where "window_at ?t i'" "\<forall>j. window_at ?t j \<longrightarrow> j \<le> i'"
        "w = take 4 (drop i' ?t)" by blast
      with uniq[of i'] e show "extractRoomId input = Some w" by simp
    qed
    ultimately show ?thesis by blast
  qed
qed


theorem extractRoomId_last_run_witness:
  "extractRoomId '' a/123456 '' = Some ''3456''
   \<and> trim '' a/123456 '' = ''a/123456''
   \<and> window_at ''a/123456'' 4
   \<and> take 4 (drop 4 ''a/123456'') = ''3456''
   \<and> extractRoomId ''12345x'' = Some ''2345''
   \<and> extractRoomId ''no code 123'' = None"
proof -
  have t: "trim '' a/123456 '' = ''a/123456''"
    by (simp add: trim_def is_space_def)
  have w: "window_at ''a/123456'' 4"
    by (simp add: window_at_def is_digit_def)
  have top: "\<forall>j. window_at ''a/123456'' j \<longrightarrow> j \<le> 4"
    by (simp add: window_at_def)
  from extractRoomId_last_run[of "'' a/123456 ''" "''3456''"] t w top
  have 1: "extractRoomId '' a/123456 '' = Some ''3456''" by auto
  have 2: "extractRoomId ''12345x'' = Some ''2345''" by code_simp
  have 3: "extractRoomId ''no code 123'' = None" by code_simp
  from 1 t w 2 3 show ?thesis by simp
qed

end
